theory Spec2Isabelle
  imports Complex_Main "HOL-Library.Word" "HOL-Library.Signed_Division"
begin

section \<open>ResampleScope core algorithms (rscope\_shim.c)\<close>

text \<open>
  The C unit works on raw grayscale buffers. The embedding keeps its shape:
  \<^item> \<open>uint8_t\<close> is \<open>8 word\<close>, a buffer is a list of bytes;
  \<^item> the C operators \<open>/\<close> and \<open>%\<close> on \<open>int\<close> truncate towards zero and are \<open>sdiv\<close> and
    \<open>smod\<close>;
  \<^item> \<open>double\<close> is modelled by \<open>real\<close>: rounding is outside the model, \<open>pow\<close> on a positive
    base is \<open>powr\<close>. The one division by zero the code can reach is \<open>tot / scale_factor\<close>
    of \<open>rs_analyze_line\<close> at \<open>w = 0\<close>: its result is not a number, and \<open>double_div\<close> says
    so. Every other divisor is a constant or a scale factor inside a loop over the
    columns, where \<open>w \<ge> 1\<close>. A comparison of two doubles is the comparison of the real
    numbers: where the offset of a column lies exactly on \<open>scale_factor * HCENTER\<close> the
    column is kept here, and in the code the rounding of both sides decides;
  \<^item> \<open>int\<close> is 32 bits wide. The one \<open>int\<close> expression that can leave the range is the
    index \<open>y * stride + x\<close> of a pixel: the analyzers evaluate it with \<open>pixel_index\<close>,
    where signed overflow, undefined behaviour in C, is an error value. The loop
    counters stay below \<open>w\<close> or a constant;
  \<^item> an access outside a buffer is undefined behaviour in C and an error value here;
  \<^item> every \<open>for\<close> loop is a recursive function on its counter.
\<close>

subsection \<open>Constants\<close>

type_synonym u8 = "8 word"

definition DOTIMG_SRC_WIDTH :: int where "DOTIMG_SRC_WIDTH = 557"
definition DOTIMG_HPIXELSPAN :: int where "DOTIMG_HPIXELSPAN = 25"
definition DOTIMG_NUMSTRIPS :: int where "DOTIMG_NUMSTRIPS = DOTIMG_HPIXELSPAN"
definition DOTIMG_HCENTER :: int where "DOTIMG_HCENTER = (DOTIMG_HPIXELSPAN - 1) sdiv 2"
definition DOTIMG_STRIPHEIGHT :: int where "DOTIMG_STRIPHEIGHT = 11"
definition DOTIMG_VCENTER :: int where "DOTIMG_VCENTER = (DOTIMG_STRIPHEIGHT - 1) sdiv 2"
definition DOTIMG_SRC_HEIGHT :: int where
  "DOTIMG_SRC_HEIGHT = DOTIMG_NUMSTRIPS * DOTIMG_STRIPHEIGHT"
definition DOTIMG_DST_WIDTH :: int where "DOTIMG_DST_WIDTH = DOTIMG_SRC_WIDTH - 2"
definition DOTIMG_DST_HEIGHT :: int where "DOTIMG_DST_HEIGHT = DOTIMG_SRC_HEIGHT"

definition LINEIMG_SRC_WIDTH :: int where "LINEIMG_SRC_WIDTH = 15"
definition LINEIMG_SRC_HEIGHT :: int where "LINEIMG_SRC_HEIGHT = 15"
definition LINEIMG_DST_WIDTH :: int where "LINEIMG_DST_WIDTH = 555"
definition LINEIMG_DST_HEIGHT :: int where "LINEIMG_DST_HEIGHT = LINEIMG_SRC_HEIGHT"

definition DARK :: int where "DARK = 50"
definition BRIGHT :: int where "BRIGHT = 250"

definition INT_MAX :: int where "INT_MAX = 2147483647"
definition INT_MIN :: int where "INT_MIN = - INT_MAX - 1"

subsection \<open>Buffers\<close>

datatype error = ReadOutOfBounds | WriteOutOfBounds | SignedOverflow

definition load :: "'a list \<Rightarrow> int \<Rightarrow> error + 'a" where
  "load buf idx =
     (if 0 \<le> idx \<and> idx < int (length buf) then Inr (buf ! nat idx)
      else Inl ReadOutOfBounds)"

definition store :: "'a list \<Rightarrow> int \<Rightarrow> 'a \<Rightarrow> error + 'a list" where
  "store buf idx v =
     (if 0 \<le> idx \<and> idx < int (length buf) then Inr (buf[nat idx := v])
      else Inl WriteOutOfBounds)"

definition memset :: "u8 list \<Rightarrow> int \<Rightarrow> int \<Rightarrow> error + u8 list" where
  "memset buf c n =
     (if 0 \<le> n \<and> n \<le> int (length buf)
      then Inr (replicate (nat n) (word_of_int c) @ drop (nat n) buf)
      else Inl WriteOutOfBounds)"

subsection \<open>Pattern generation\<close>

text \<open>
  \<open>rs_generate_dot_pattern\<close> (lines 38 to 70): \<open>memset\<close>, then the loop over the rows \<open>j\<close>
  around the loop over the columns \<open>i\<close>. \<open>dot_pixel\<close> is the body of the inner loop.
\<close>

definition dot_pixel :: "u8 list \<Rightarrow> int \<Rightarrow> int \<Rightarrow> error + u8 list" where
  "dot_pixel buf j i =
     (if j smod DOTIMG_STRIPHEIGHT = DOTIMG_VCENTER \<and>
         i \<ge> DOTIMG_HCENTER \<and>
         i < DOTIMG_SRC_WIDTH - DOTIMG_HCENTER
      then
        (let strip = j sdiv DOTIMG_STRIPHEIGHT;
             val = (i - strip) smod DOTIMG_HPIXELSPAN
         in if val = DOTIMG_HCENTER
            then store buf (j * DOTIMG_SRC_WIDTH + i) (word_of_int BRIGHT)
            else Inr buf)
      else Inr buf)"

function dot_cols_loop :: "u8 list \<Rightarrow> int \<Rightarrow> int \<Rightarrow> error + u8 list" where
  "dot_cols_loop buf j i =
     (if i < DOTIMG_SRC_WIDTH
      then (case dot_pixel buf j i of
              Inl e \<Rightarrow> Inl e
            | Inr buf' \<Rightarrow> dot_cols_loop buf' j (i + 1))
      else Inr buf)"
  by pat_completeness auto
termination
  by (relation "measure (\<lambda>(buf, j, i). nat (DOTIMG_SRC_WIDTH - i))") auto

function dot_rows_loop :: "u8 list \<Rightarrow> int \<Rightarrow> error + u8 list" where
  "dot_rows_loop buf j =
     (if j < DOTIMG_SRC_HEIGHT
      then (case dot_cols_loop buf j 0 of
              Inl e \<Rightarrow> Inl e
            | Inr buf' \<Rightarrow> dot_rows_loop buf' (j + 1))
      else Inr buf)"
  by pat_completeness auto
termination
  by (relation "measure (\<lambda>(buf, j). nat (DOTIMG_SRC_HEIGHT - j))") auto

definition rs_generate_dot_pattern :: "u8 list \<Rightarrow> error + u8 list" where
  "rs_generate_dot_pattern buf =
     (case memset buf DARK (DOTIMG_SRC_WIDTH * DOTIMG_SRC_HEIGHT) of
        Inl e \<Rightarrow> Inl e
      | Inr buf' \<Rightarrow> dot_rows_loop buf' 0)"

text \<open>
  The same generator with the remainder of \<open>i - strip\<close> taken as the mathematical,
  never negative modulus. It is not in the source: it is the variant the source's
  comments warn against, kept apart under its own name to be compared with the source.
\<close>

definition dot_pixel_floor :: "u8 list \<Rightarrow> int \<Rightarrow> int \<Rightarrow> error + u8 list" where
  "dot_pixel_floor buf j i =
     (if j smod DOTIMG_STRIPHEIGHT = DOTIMG_VCENTER \<and>
         i \<ge> DOTIMG_HCENTER \<and>
         i < DOTIMG_SRC_WIDTH - DOTIMG_HCENTER
      then
        (let strip = j sdiv DOTIMG_STRIPHEIGHT;
             val = (i - strip) mod DOTIMG_HPIXELSPAN
         in if val = DOTIMG_HCENTER
            then store buf (j * DOTIMG_SRC_WIDTH + i) (word_of_int BRIGHT)
            else Inr buf)
      else Inr buf)"

function dot_cols_loop_floor :: "u8 list \<Rightarrow> int \<Rightarrow> int \<Rightarrow> error + u8 list" where
  "dot_cols_loop_floor buf j i =
     (if i < DOTIMG_SRC_WIDTH
      then (case dot_pixel_floor buf j i of
              Inl e \<Rightarrow> Inl e
            | Inr buf' \<Rightarrow> dot_cols_loop_floor buf' j (i + 1))
      else Inr buf)"
  by pat_completeness auto
termination
  by (relation "measure (\<lambda>(buf, j, i). nat (DOTIMG_SRC_WIDTH - i))") auto

function dot_rows_loop_floor :: "u8 list \<Rightarrow> int \<Rightarrow> error + u8 list" where
  "dot_rows_loop_floor buf j =
     (if j < DOTIMG_SRC_HEIGHT
      then (case dot_cols_loop_floor buf j 0 of
              Inl e \<Rightarrow> Inl e
            | Inr buf' \<Rightarrow> dot_rows_loop_floor buf' (j + 1))
      else Inr buf)"
  by pat_completeness auto
termination
  by (relation "measure (\<lambda>(buf, j). nat (DOTIMG_SRC_HEIGHT - j))") auto

definition rs_generate_dot_pattern_floor :: "u8 list \<Rightarrow> error + u8 list" where
  "rs_generate_dot_pattern_floor buf =
     (case memset buf DARK (DOTIMG_SRC_WIDTH * DOTIMG_SRC_HEIGHT) of
        Inl e \<Rightarrow> Inl e
      | Inr buf' \<Rightarrow> dot_rows_loop_floor buf' 0)"

subsection \<open>sRGB conversion and pixel sampling\<close>

definition c_srgb_to_linear :: "real \<Rightarrow> real" where
  "c_srgb_to_linear v_srgb =
     (if v_srgb \<le> 0.04045 then v_srgb / 12.92
      else ((v_srgb + 0.055) / 1.055) powr 2.4)"

text \<open>
  \<open>c_srgb_to_linear\<close> and \<open>read_pixel\<close> (lines 87 to 104). The flag \<open>srgb\<close> is a C \<open>int\<close>:
  any value but 0 selects the sRGB correction.
\<close>

definition read_pixel :: "u8 list \<Rightarrow> int \<Rightarrow> int \<Rightarrow> int \<Rightarrow> int \<Rightarrow> error + real" where
  "read_pixel buf stride x y srgb =
     (case load buf (y * stride + x) of
        Inl e \<Rightarrow> Inl e
      | Inr b \<Rightarrow>
          (let raw = real (unat b) in
           if srgb \<noteq> 0 then
             (let srgb50_lin = c_srgb_to_linear (50 / 255);
                  srgb250_lin = c_srgb_to_linear (250 / 255);
                  v_lin = c_srgb_to_linear (raw / 255)
              in Inr ((v_lin - srgb50_lin) * ((250 - 50) / (srgb250_lin - srgb50_lin)) + 50))
           else Inr raw))"

text \<open>
  A call of \<open>read_pixel\<close> as the machine runs it. \<open>read_pixel\<close> above takes the index
  \<open>y * stride + x\<close> as an integer; in C it is an \<open>int\<close> expression, a product and a sum,
  and a call whose product or sum does not fit an \<open>int\<close> has undefined behaviour: the
  index used is not the one of the pixel. The analyzers read through \<open>read_pixel_int\<close>.
\<close>

definition int_fits :: "int \<Rightarrow> bool" where
  "int_fits v \<longleftrightarrow> INT_MIN \<le> v \<and> v \<le> INT_MAX"

definition pixel_index :: "int \<Rightarrow> int \<Rightarrow> int \<Rightarrow> error + int" where
  "pixel_index stride x y =
     (if int_fits (y * stride) \<and> int_fits (y * stride + x) then Inr (y * stride + x)
      else Inl SignedOverflow)"

definition read_pixel_int :: "u8 list \<Rightarrow> int \<Rightarrow> int \<Rightarrow> int \<Rightarrow> int \<Rightarrow> error + real" where
  "read_pixel_int buf stride x y srgb =
     (case pixel_index stride x y of
        Inl e \<Rightarrow> Inl e
      | Inr idx \<Rightarrow> read_pixel buf stride x y srgb)"

text \<open>
  The quotient of two doubles where the divisor can be zero: \<open>None\<close> is a result that is
  not a real number (NaN for 0.0 / 0.0, an infinity otherwise).
\<close>

definition double_div :: "real \<Rightarrow> real \<Rightarrow> real option" where
  "double_div a b = (if b = 0 then None else Some (a / b))"

subsection \<open>Output arrays\<close>

text \<open>
  The two caller-allocated arrays \<open>offsets\<close> and \<open>weights\<close>. Both analyzers end an
  iteration with the same statements (lines 162 to 169 and 220 to 227): rescale one
  component of the sample, then write it at an index of the arrays.
\<close>

record samples =
  offsets :: "real list"
  weights :: "real list"

definition rescale_store ::
  "real \<Rightarrow> samples \<Rightarrow> int \<Rightarrow> real \<Rightarrow> real \<Rightarrow> error + samples" where
  "rescale_store scale_factor out idx offset weight =
     (let weight' = (if scale_factor < 1 then weight / scale_factor else weight);
          offset' = (if scale_factor < 1 then offset else offset / scale_factor)
      in case store (offsets out) idx offset' of
           Inl e \<Rightarrow> Inl e
         | Inr offs \<Rightarrow>
             (case store (weights out) idx weight' of
                Inl e \<Rightarrow> Inl e
              | Inr wts \<Rightarrow> Inr \<lparr>offsets = offs, weights = wts\<rparr>))"

subsection \<open>Dot analysis\<close>

text \<open>
  \<open>rs_analyze_dot\<close> (lines 120 to 176). The loop over the dot centres \<open>k\<close> of a strip
  (lines 137 to 146) keeps the offset of the nearest zero point so far; the caller starts
  it at 10000.
\<close>

function dot_nearest_loop :: "real \<Rightarrow> int \<Rightarrow> int \<Rightarrow> int \<Rightarrow> real \<Rightarrow> real" where
  "dot_nearest_loop scale_factor w dstpos k offset =
     (if k < DOTIMG_SRC_WIDTH - DOTIMG_HCENTER
      then
        (let zp = scale_factor * (real_of_int k + 0.5 - real_of_int DOTIMG_SRC_WIDTH / 2)
                  + real_of_int w / 2 - 0.5;
             tmp_offset = real_of_int dstpos - zp
         in dot_nearest_loop scale_factor w dstpos (k + DOTIMG_HPIXELSPAN)
              (if \<bar>tmp_offset\<bar> < \<bar>offset\<bar> then tmp_offset else offset))
      else offset)"
  by pat_completeness auto
termination
  by (relation "measure (\<lambda>(sf, w, dstpos, k, offset).
        nat (DOTIMG_SRC_WIDTH - DOTIMG_HCENTER - k))")
     (auto simp: DOTIMG_HPIXELSPAN_def)

text \<open>The loop over the rows of a strip (lines 152 to 157): the sum of the values above 50.\<close>

function dot_sum_loop ::
  "u8 list \<Rightarrow> int \<Rightarrow> int \<Rightarrow> int \<Rightarrow> int \<Rightarrow> int \<Rightarrow> real \<Rightarrow> error + real" where
  "dot_sum_loop resized w srgb strip dstpos row tot =
     (if row < DOTIMG_STRIPHEIGHT
      then
        (let y = DOTIMG_STRIPHEIGHT * strip + row
         in case read_pixel_int resized w dstpos y srgb of
              Inl e \<Rightarrow> Inl e
            | Inr v \<Rightarrow> dot_sum_loop resized w srgb strip dstpos (row + 1) (tot + (v - 50)))
      else Inr tot)"
  by pat_completeness auto
termination
  by (relation "measure (\<lambda>(resized, w, srgb, strip, dstpos, row, tot).
        nat (DOTIMG_STRIPHEIGHT - row))") auto

text \<open>
  The first part of the body of the loop over \<open>dstpos\<close> (lines 131 to 160), up to the
  weight before it is rescaled: \<open>None\<close> is the \<open>continue\<close> of a column that is too far from
  any dot.
\<close>

definition dot_point ::
  "u8 list \<Rightarrow> int \<Rightarrow> int \<Rightarrow> real \<Rightarrow> int \<Rightarrow> int \<Rightarrow> error + (real \<times> real) option" where
  "dot_point resized w srgb scale_factor strip dstpos =
     (let offset = dot_nearest_loop scale_factor w dstpos (DOTIMG_HCENTER + strip) 10000
      in if \<bar>offset\<bar> > scale_factor * real_of_int DOTIMG_HCENTER then Inr None
         else (case dot_sum_loop resized w srgb strip dstpos 0 0 of
                 Inl e \<Rightarrow> Inl e
               | Inr tot \<Rightarrow> Inr (Some (offset, tot / 200))))"

text \<open>The whole body, with lines 162 to 170: the state is the two arrays and \<open>count\<close>.\<close>

definition dot_column ::
  "u8 list \<Rightarrow> int \<Rightarrow> int \<Rightarrow> real \<Rightarrow> int \<Rightarrow> int \<Rightarrow> samples \<times> int \<Rightarrow> error + samples \<times> int" where
  "dot_column resized w srgb scale_factor strip dstpos st =
     (case dot_point resized w srgb scale_factor strip dstpos of
        Inl e \<Rightarrow> Inl e
      | Inr None \<Rightarrow> Inr st
      | Inr (Some (offset, weight)) \<Rightarrow>
          (case rescale_store scale_factor (fst st) (snd st) offset weight of
             Inl e \<Rightarrow> Inl e
           | Inr out \<Rightarrow> Inr (out, snd st + 1)))"

function dot_cols_scan ::
  "u8 list \<Rightarrow> int \<Rightarrow> int \<Rightarrow> real \<Rightarrow> int \<Rightarrow> int \<Rightarrow> samples \<times> int \<Rightarrow> error + samples \<times> int" where
  "dot_cols_scan resized w srgb scale_factor strip dstpos st =
     (if dstpos < w
      then (case dot_column resized w srgb scale_factor strip dstpos st of
              Inl e \<Rightarrow> Inl e
            | Inr st' \<Rightarrow> dot_cols_scan resized w srgb scale_factor strip (dstpos + 1) st')
      else Inr st)"
  by pat_completeness auto
termination
  by (relation "measure (\<lambda>(resized, w, srgb, sf, strip, dstpos, st). nat (w - dstpos))") auto

function dot_strips_scan ::
  "u8 list \<Rightarrow> int \<Rightarrow> int \<Rightarrow> real \<Rightarrow> int \<Rightarrow> samples \<times> int \<Rightarrow> error + samples \<times> int" where
  "dot_strips_scan resized w srgb scale_factor strip st =
     (if strip < DOTIMG_NUMSTRIPS
      then (case dot_cols_scan resized w srgb scale_factor strip 0 st of
              Inl e \<Rightarrow> Inl e
            | Inr st' \<Rightarrow> dot_strips_scan resized w srgb scale_factor (strip + 1) st')
      else Inr st)"
  by pat_completeness auto
termination
  by (relation "measure (\<lambda>(resized, w, srgb, sf, strip, st). nat (DOTIMG_NUMSTRIPS - strip))")
     auto

text \<open>
  \<open>rs_analyze_dot\<close> returns the scale factor; the arrays it filled and \<open>*out_count\<close>
  are returned with it. The height \<open>h\<close> is not used, as in the source.
\<close>

definition rs_analyze_dot ::
  "u8 list \<Rightarrow> int \<Rightarrow> int \<Rightarrow> int \<Rightarrow> samples \<Rightarrow> error + real \<times> samples \<times> int" where
  "rs_analyze_dot resized w h srgb out =
     (let scale_factor = real_of_int w / real_of_int DOTIMG_SRC_WIDTH
      in case dot_strips_scan resized w srgb scale_factor 0 (out, 0) of
           Inl e \<Rightarrow> Inl e
         | Inr (out', count) \<Rightarrow> Inr (scale_factor, out', count))"

subsection \<open>Line analysis\<close>

text \<open>
  \<open>rs_analyze_line\<close> (lines 192 to 232). \<open>line_y\<close> is the row that column \<open>i\<close> is sampled
  from (lines 206 to 212).
\<close>

definition line_y :: "int \<Rightarrow> int \<Rightarrow> int \<Rightarrow> int" where
  "line_y h scanline i =
     (if h \<ge> 3
      then (let y = scanline + (i smod 3) - 1;
                y = (if y < 0 then 0 else y);
                y = (if y \<ge> h then h - 1 else y)
            in y)
      else scanline)"

text \<open>
  The body of the loop over the columns (lines 203 to 227): the state is the two arrays
  and \<open>tot\<close>.
\<close>

definition line_column ::
  "u8 list \<Rightarrow> int \<Rightarrow> int \<Rightarrow> int \<Rightarrow> real \<Rightarrow> int \<Rightarrow> int \<Rightarrow> samples \<times> real
     \<Rightarrow> error + samples \<times> real" where
  "line_column resized w h srgb scale_factor scanline i st =
     (let y = line_y h scanline i
      in case read_pixel_int resized w i y srgb of
           Inl e \<Rightarrow> Inl e
         | Inr v \<Rightarrow>
             (let weight = (v - 50) / 200;
                  tot = snd st + weight;
                  offset = 0.5 + real_of_int i - real_of_int w / 2
              in case rescale_store scale_factor (fst st) i offset weight of
                   Inl e \<Rightarrow> Inl e
                 | Inr out \<Rightarrow> Inr (out, tot)))"

function line_scan ::
  "u8 list \<Rightarrow> int \<Rightarrow> int \<Rightarrow> int \<Rightarrow> real \<Rightarrow> int \<Rightarrow> int \<Rightarrow> samples \<times> real
     \<Rightarrow> error + samples \<times> real" where
  "line_scan resized w h srgb scale_factor scanline i st =
     (if i < w
      then (case line_column resized w h srgb scale_factor scanline i st of
              Inl e \<Rightarrow> Inl e
            | Inr st' \<Rightarrow> line_scan resized w h srgb scale_factor scanline (i + 1) st')
      else Inr st)"
  by pat_completeness auto
termination
  by (relation "measure (\<lambda>(resized, w, h, srgb, sf, scanline, i, st). nat (w - i))") auto

text \<open>
  \<open>rs_analyze_line\<close> returns the scale factor, with the arrays and \<open>*out_area\<close>. The area
  is \<open>tot / scale_factor\<close>, which is 0.0 / 0.0 for a raster without columns.
\<close>

definition rs_analyze_line ::
  "u8 list \<Rightarrow> int \<Rightarrow> int \<Rightarrow> int \<Rightarrow> samples \<Rightarrow> error + real \<times> samples \<times> real option" where
  "rs_analyze_line resized w h srgb out =
     (let scale_factor = real_of_int w / real_of_int LINEIMG_SRC_WIDTH;
          scanline = h sdiv 2
      in case line_scan resized w h srgb scale_factor scanline 0 (out, 0) of
           Inl e \<Rightarrow> Inl e
         | Inr (out', tot) \<Rightarrow> Inr (scale_factor, out', double_div tot scale_factor))"

subsection \<open>Vocabulary of the statements\<close>

text \<open>
  When the inner loop of \<open>rs_generate_dot_pattern\<close> stores \<open>BRIGHT\<close> at row \<open>j\<close>,
  column \<open>i\<close>: the two conditions of its body, with the constants written out.
\<close>

definition dot_at :: "int \<Rightarrow> int \<Rightarrow> bool" where
  "dot_at j i \<longleftrightarrow> j smod 11 = 5 \<and> 12 \<le> i \<and> i < 545 \<and> (i - j sdiv 11) smod 25 = 12"

text \<open>
  The samples before they are rescaled, in the order the loops of \<open>rs_analyze_dot\<close> meet
  them: what \<open>dot_point\<close> returns for one column, for the columns of a strip from
  \<open>dstpos\<close> on, and for all strips.
\<close>

definition dot_column_points ::
  "u8 list \<Rightarrow> int \<Rightarrow> int \<Rightarrow> real \<Rightarrow> int \<Rightarrow> int \<Rightarrow> (real \<times> real) list" where
  "dot_column_points resized w srgb scale_factor strip dstpos =
     (case dot_point resized w srgb scale_factor strip dstpos of
        Inr (Some p) \<Rightarrow> [p]
      | _ \<Rightarrow> [])"

definition dot_strip_points ::
  "u8 list \<Rightarrow> int \<Rightarrow> int \<Rightarrow> real \<Rightarrow> int \<Rightarrow> int \<Rightarrow> (real \<times> real) list" where
  "dot_strip_points resized w srgb scale_factor strip dstpos =
     concat (map (dot_column_points resized w srgb scale_factor strip) [dstpos..w - 1])"

definition dot_points_from ::
  "u8 list \<Rightarrow> int \<Rightarrow> int \<Rightarrow> real \<Rightarrow> int \<Rightarrow> (real \<times> real) list" where
  "dot_points_from resized w srgb scale_factor strip =
     concat (map (\<lambda>s. dot_strip_points resized w srgb scale_factor s 0)
       [strip..DOTIMG_NUMSTRIPS - 1])"

definition dot_points :: "u8 list \<Rightarrow> int \<Rightarrow> int \<Rightarrow> real \<Rightarrow> (real \<times> real) list" where
  "dot_points resized w srgb scale_factor = dot_points_from resized w srgb scale_factor 0"

text \<open>
  The offset of column \<open>dstpos\<close> from the zero point of the dot centre \<open>k\<close>: the value
  \<open>tmp_offset\<close> of the loop over the dot centres.
\<close>

definition dot_candidate_offset :: "real \<Rightarrow> int \<Rightarrow> int \<Rightarrow> int \<Rightarrow> real" where
  "dot_candidate_offset scale_factor w dstpos k =
     real_of_int dstpos -
     (scale_factor * (real_of_int k + 0.5 - real_of_int DOTIMG_SRC_WIDTH / 2)
      + real_of_int w / 2 - 0.5)"

text \<open>A sample after the rescaling step, and the samples a loop state holds so far.\<close>

definition rescaled :: "real \<Rightarrow> real \<times> real \<Rightarrow> real \<times> real" where
  "rescaled scale_factor p =
     (if scale_factor < 1 then (fst p, snd p / scale_factor)
      else (fst p / scale_factor, snd p))"

definition emitted :: "samples \<times> int \<Rightarrow> (real \<times> real) list" where
  "emitted st =
     zip (take (nat (snd st)) (offsets (fst st))) (take (nat (snd st)) (weights (fst st)))"

text \<open>The loops are unfolded one iteration at a time, by hand.\<close>

declare dot_cols_loop.simps [simp del] dot_rows_loop.simps [simp del]
  dot_cols_loop_floor.simps [simp del] dot_rows_loop_floor.simps [simp del]
  dot_nearest_loop.simps [simp del] dot_sum_loop.simps [simp del]
  dot_cols_scan.simps [simp del] dot_strips_scan.simps [simp del]
  line_scan.simps [simp del]

section \<open>Pattern generation: the dot raster\<close>

lemmas dotimg_defs = DOTIMG_SRC_WIDTH_def DOTIMG_HPIXELSPAN_def DOTIMG_NUMSTRIPS_def
  DOTIMG_HCENTER_def DOTIMG_STRIPHEIGHT_def DOTIMG_VCENTER_def DOTIMG_SRC_HEIGHT_def

lemma consts_vals: "DOTIMG_HCENTER = 12" "DOTIMG_VCENTER = 5" "DOTIMG_SRC_HEIGHT = 275"
  "DOTIMG_NUMSTRIPS = 25"
  by (simp_all add: dotimg_defs signed_divide_int_def)

lemma dot_pixel_eq:
  assumes "0 \<le> j" "j < 275" "0 \<le> i" "i < 557" "153175 \<le> length buf"
  shows "dot_pixel buf j i = Inr (if dot_at j i then buf[nat (j * 557 + i) := 250] else buf)"
proof -
  have "j * 557 + i < 153175" using assms by linarith
  moreover have "0 \<le> j * 557 + i" using assms by simp
  ultimately show ?thesis using assms(5)
    by (simp add: dot_pixel_def dot_at_def consts_vals DOTIMG_STRIPHEIGHT_def
        DOTIMG_SRC_WIDTH_def DOTIMG_HPIXELSPAN_def BRIGHT_def store_def Let_def)
qed

lemma dot_cols_loop_eq:
  assumes "0 \<le> j" "j < 275" "0 \<le> i" "153175 \<le> length buf"
  shows "\<exists>r. dot_cols_loop buf j i = Inr r \<and> length r = length buf \<and>
          (\<forall>n < length buf. r ! n =
             (if j * 557 + i \<le> int n \<and> int n < j * 557 + 557 \<and> dot_at j (int n - j * 557)
              then 250 else buf ! n))"
  using assms
proof (induction buf j i rule: dot_cols_loop.induct)
  case (1 buf j i)
  show ?case
  proof (cases "i < 557")
    case False
    then show ?thesis
      by (subst dot_cols_loop.simps) (auto simp: DOTIMG_SRC_WIDTH_def)
  next
    case True
    let ?b = "if dot_at j i then buf[nat (j * 557 + i) := 250] else buf"
    have px: "dot_pixel buf j i = Inr ?b"
      using 1 True by (intro dot_pixel_eq) auto
    have len: "length ?b = length buf" by simp
    from "1.IH"[OF _ px] True 1 len
    obtain r where r: "dot_cols_loop ?b j (i + 1) = Inr r" "length r = length buf"
      "\<forall>n < length buf. r ! n =
             (if j * 557 + (i + 1) \<le> int n \<and> int n < j * 557 + 557 \<and> dot_at j (int n - j * 557)
              then 250 else ?b ! n)"
      by (auto simp: DOTIMG_SRC_WIDTH_def)
    have eq: "dot_cols_loop buf j i = Inr r"
      using True px r(1) by (subst dot_cols_loop.simps) (simp add: DOTIMG_SRC_WIDTH_def)
    have "r ! n = (if j * 557 + i \<le> int n \<and> int n < j * 557 + 557 \<and> dot_at j (int n - j * 557)
              then 250 else buf ! n)" if n: "n < length buf" for n
    proof (cases "int n = j * 557 + i")
      case True
      then have nn: "n = nat (j * 557 + i)" by simp
      show ?thesis using r(3) n True \<open>i < 557\<close> by (simp add: nn)
    next
      case False
      then have "n \<noteq> nat (j * 557 + i)" using 1 by auto
      then show ?thesis using r(3) n False by auto
    qed
    with eq r(2) show ?thesis by blast
  qed
qed


lemma row_index:
  fixes j :: int
  assumes "j * 557 \<le> n" "n < j * 557 + 557"
  shows "n div 557 = j" "n mod 557 = n - j * 557"
proof -
  have e: "n = 557 * j + (n - j * 557)" by simp
  have r: "0 \<le> n - j * 557" "n - j * 557 < 557" using assms by auto
  show "n div 557 = j" by (rule int_div_pos_eq[OF e r])
  show "n mod 557 = n - j * 557" by (rule int_mod_pos_eq[OF e r])
qed

lemma dot_rows_loop_eq:
  assumes "0 \<le> j" "153175 \<le> length buf"
  shows "\<exists>r. dot_rows_loop buf j = Inr r \<and> length r = length buf \<and>
          (\<forall>n < length buf. r ! n =
             (if j * 557 \<le> int n \<and> int n < 153175 \<and> dot_at (int n div 557) (int n mod 557)
              then 250 else buf ! n))"
  using assms
proof (induction buf j rule: dot_rows_loop.induct)
  case (1 buf j)
  show ?case
  proof (cases "j < 275")
    case False
    then show ?thesis
      by (subst dot_rows_loop.simps) (auto simp: consts_vals)
  next
    case True
    from dot_cols_loop_eq[of j 0 buf] "1.prems" True
    obtain b where b: "dot_cols_loop buf j 0 = Inr b" "length b = length buf"
      "\<forall>n < length buf. b ! n =
             (if j * 557 \<le> int n \<and> int n < j * 557 + 557 \<and> dot_at j (int n - j * 557)
              then 250 else buf ! n)"
      by auto
    from "1.IH"[OF _ b(1)] True "1.prems" b(2)
    obtain r where r: "dot_rows_loop b (j + 1) = Inr r" "length r = length buf"
      "\<forall>n < length buf. r ! n =
             (if (j + 1) * 557 \<le> int n \<and> int n < 153175 \<and> dot_at (int n div 557) (int n mod 557)
              then 250 else b ! n)"
      by (auto simp: consts_vals)
    have eq: "dot_rows_loop buf j = Inr r"
      using True b(1) r(1) by (subst dot_rows_loop.simps) (simp add: consts_vals)
    have "r ! n = (if j * 557 \<le> int n \<and> int n < 153175 \<and> dot_at (int n div 557) (int n mod 557)
              then 250 else buf ! n)" if n: "n < length buf" for n
    proof (cases "j * 557 \<le> int n \<and> int n < j * 557 + 557")
      case True
      then have "int n div 557 = j" "int n mod 557 = int n - j * 557"
        using row_index[of j "int n"] by auto
      moreover have "int n < 153175" using True \<open>j < 275\<close> by linarith
      ultimately show ?thesis using r(3) b(3) n True by auto
    next
      case False
      then show ?thesis using r(3) b(3) n by auto
    qed
    with eq r(2) show ?thesis by blast
  qed
qed

lemma rs_generate_dot_pattern_eq:
  assumes "153175 \<le> length buf"
  shows "\<exists>r. rs_generate_dot_pattern buf = Inr r \<and> length r = length buf \<and>
          (\<forall>n < length buf. r ! n =
             (if n < 153175 then (if dot_at (int n div 557) (int n mod 557) then 250 else 50)
              else buf ! n))"
proof -
  let ?b = "replicate 153175 (50 :: u8) @ drop 153175 buf"
  have ms: "memset buf DARK (DOTIMG_SRC_WIDTH * DOTIMG_SRC_HEIGHT) = Inr ?b"
    using assms by (simp add: memset_def consts_vals DOTIMG_SRC_WIDTH_def DARK_def)
  have len: "length ?b = length buf" using assms by (simp)
  from dot_rows_loop_eq[of 0 ?b] len assms
  obtain r where r: "dot_rows_loop ?b 0 = Inr r" "length r = length buf"
    "\<forall>n < length buf. r ! n =
             (if int n < 153175 \<and> dot_at (int n div 557) (int n mod 557)
              then 250 else ?b ! n)"
    by auto
  have "rs_generate_dot_pattern buf = Inr r"
    by (simp add: rs_generate_dot_pattern_def ms r(1))
  moreover have "r ! n = (if n < 153175 then (if dot_at (int n div 557) (int n mod 557) then 250 else 50)
              else buf ! n)" if "n < length buf" for n
    using r(3) that by (auto simp: nth_append)
  ultimately show ?thesis using r(2) by blast
qed


lemma sdiv_nonneg: "0 \<le> (a::int) \<Longrightarrow> 0 < b \<Longrightarrow> a sdiv b = a div b"
  by (simp add: signed_divide_int_def sgn_if)

lemma smod_nonneg: "0 \<le> (a::int) \<Longrightarrow> 0 < b \<Longrightarrow> a smod b = a mod b"
  by (simp add: signed_modulo_int_def sgn_if)

lemma smod_neg_le: "(a::int) < 0 \<Longrightarrow> 0 < b \<Longrightarrow> a smod b \<le> 0"
  by (simp add: signed_modulo_int_def sgn_if)

lemma remainder_agree:
  fixes d :: int
  assumes "- 12 \<le> d"
  shows "d smod 25 = 12 \<longleftrightarrow> d mod 25 = 12"
proof (cases "0 \<le> d")
  case True
  then show ?thesis by (simp add: smod_nonneg)
next
  case False
  then have "d smod 25 \<le> 0" by (simp add: smod_neg_le)
  moreover have "d mod 25 = d + 25"
    using False assms by (intro int_mod_pos_eq[of _ _ "-1"]) auto
  ultimately show ?thesis using assms False by auto
qed

lemma dot_pixel_floor_eq:
  assumes "0 \<le> j" "j < 275"
  shows "dot_pixel_floor buf j i = dot_pixel buf j i"
proof -
  have "j sdiv 11 = j div 11" using assms by (simp add: sdiv_nonneg)
  moreover have "j div 11 \<le> 24" using assms by simp
  ultimately have "12 \<le> i \<Longrightarrow> - 12 \<le> i - j sdiv 11" by simp
  then show ?thesis
    by (auto simp: dot_pixel_floor_def dot_pixel_def consts_vals DOTIMG_STRIPHEIGHT_def
        DOTIMG_HPIXELSPAN_def Let_def remainder_agree)
qed

lemma dot_cols_loop_floor_eq:
  assumes "0 \<le> j" "j < 275"
  shows "dot_cols_loop_floor buf j i = dot_cols_loop buf j i"
  using assms
proof (induction buf j i rule: dot_cols_loop.induct)
  case (1 buf j i)
  show ?case
    using "1.IH" "1.prems" dot_pixel_floor_eq[of j buf i]
    by (subst dot_cols_loop_floor.simps, subst dot_cols_loop.simps)
       (auto split: sum.splits)
qed

lemma dot_rows_loop_floor_eq:
  assumes "0 \<le> j"
  shows "dot_rows_loop_floor buf j = dot_rows_loop buf j"
  using assms
proof (induction buf j rule: dot_rows_loop.induct)
  case (1 buf j)
  show ?case
  proof (cases "j < DOTIMG_SRC_HEIGHT")
    case False
    then show ?thesis
      by (subst dot_rows_loop_floor.simps, subst dot_rows_loop.simps) simp
  next
    case True
    then have "j < 275" by (simp add: consts_vals)
    then have c: "dot_cols_loop_floor buf j 0 = dot_cols_loop buf j 0"
      using "1.prems" by (simp add: dot_cols_loop_floor_eq)
    show ?thesis
      using "1.IH" "1.prems" True c
      by (subst dot_rows_loop_floor.simps, subst dot_rows_loop.simps)
         (auto split: sum.splits)
  qed
qed

text \<open>
  C5. In the raster that \<open>rs_generate_dot_pattern\<close> leaves in a buffer of at least
  \<open>DOTIMG_SRC_WIDTH * DOTIMG_SRC_HEIGHT\<close> bytes, the pixel of column \<open>i\<close> and row \<open>j\<close> is
  \<open>BRIGHT\<close> when \<open>j mod STRIPHEIGHT = VCENTER\<close>, \<open>HCENTER \<le> i < SRC_WIDTH - HCENTER\<close> and
  the remainder of \<open>i - j / STRIPHEIGHT\<close> by \<open>HPIXELSPAN\<close>, with the sign of the dividend,
  is \<open>HCENTER\<close>; every other pixel is \<open>DARK\<close>.
\<close>

theorem dot_pattern_pixels:
  assumes "DOTIMG_SRC_WIDTH * DOTIMG_SRC_HEIGHT \<le> int (length buf)"
  shows "\<exists>r. rs_generate_dot_pattern buf = Inr r \<and> length r = length buf \<and>
           (\<forall>i j. 0 \<le> i \<and> i < DOTIMG_SRC_WIDTH \<and> 0 \<le> j \<and> j < DOTIMG_SRC_HEIGHT \<longrightarrow>
              r ! nat (j * DOTIMG_SRC_WIDTH + i) =
                (if j mod DOTIMG_STRIPHEIGHT = DOTIMG_VCENTER \<and>
                    DOTIMG_HCENTER \<le> i \<and> i < DOTIMG_SRC_WIDTH - DOTIMG_HCENTER \<and>
                    (i - j div DOTIMG_STRIPHEIGHT) smod DOTIMG_HPIXELSPAN = DOTIMG_HCENTER
                 then word_of_int BRIGHT else word_of_int DARK))"
proof -
  have len: "153175 \<le> length buf"
    using assms by (simp add: consts_vals DOTIMG_SRC_WIDTH_def)
  from rs_generate_dot_pattern_eq[OF len]
  obtain r where r: "rs_generate_dot_pattern buf = Inr r" "length r = length buf"
    "\<forall>n < length buf. r ! n =
       (if n < 153175 then (if dot_at (int n div 557) (int n mod 557) then 250 else 50)
        else buf ! n)"
    by blast
  have "r ! nat (j * 557 + i) =
          (if j mod 11 = 5 \<and> 12 \<le> i \<and> i < 545 \<and> (i - j div 11) smod 25 = 12
           then 250 else 50)"
    if ij: "0 \<le> i" "i < 557" "0 \<le> j" "j < 275" for i j
  proof -
    have b: "j * 557 + i < 153175" "0 \<le> j * 557 + i" using ij by auto
    have d: "(j * 557 + i) div 557 = j" "(j * 557 + i) mod 557 = i"
      using row_index[of j "j * 557 + i"] ij by auto
    have n: "nat (j * 557 + i) < length buf" "nat (j * 557 + i) < 153175"
      using b len by linarith+
    have "r ! nat (j * 557 + i) = (if dot_at j i then 250 else 50)"
      using r(3)[rule_format, OF n(1)] n(2) b(2) d by simp
    then show ?thesis
      using ij by (simp add: dot_at_def sdiv_nonneg smod_nonneg)
  qed
  then show ?thesis
    using r(1,2)
    by (simp add: consts_vals DOTIMG_SRC_WIDTH_def DOTIMG_STRIPHEIGHT_def DOTIMG_HPIXELSPAN_def
        BRIGHT_def DARK_def)
qed

theorem dot_pattern_pixels_witness:
  "\<exists>r. rs_generate_dot_pattern (replicate 153175 0) = Inr r \<and>
       r ! 2797 = 250 \<and> r ! 2798 = 50 \<and> r ! 0 = 50"
proof -
  have h: "DOTIMG_SRC_WIDTH * DOTIMG_SRC_HEIGHT \<le> int (length (replicate 153175 (0::u8)))"
    by (simp add: consts_vals DOTIMG_SRC_WIDTH_def)
  from dot_pattern_pixels[OF h]
  obtain r where r: "rs_generate_dot_pattern (replicate 153175 0) = Inr r"
    "\<forall>i j. 0 \<le> i \<and> i < DOTIMG_SRC_WIDTH \<and> 0 \<le> j \<and> j < DOTIMG_SRC_HEIGHT \<longrightarrow>
              r ! nat (j * DOTIMG_SRC_WIDTH + i) =
                (if j mod DOTIMG_STRIPHEIGHT = DOTIMG_VCENTER \<and>
                    DOTIMG_HCENTER \<le> i \<and> i < DOTIMG_SRC_WIDTH - DOTIMG_HCENTER \<and>
                    (i - j div DOTIMG_STRIPHEIGHT) smod DOTIMG_HPIXELSPAN = DOTIMG_HCENTER
                 then word_of_int BRIGHT else word_of_int DARK)"
    by blast
  from r(2)[rule_format, of 12 5] have "r ! 2797 = 250"
    by (simp add: consts_vals DOTIMG_SRC_WIDTH_def DOTIMG_STRIPHEIGHT_def DOTIMG_HPIXELSPAN_def
        BRIGHT_def DARK_def smod_nonneg)
  moreover from r(2)[rule_format, of 13 5] have "r ! 2798 = 50"
    by (simp add: consts_vals DOTIMG_SRC_WIDTH_def DOTIMG_STRIPHEIGHT_def DOTIMG_HPIXELSPAN_def
        BRIGHT_def DARK_def smod_nonneg)
  moreover from r(2)[rule_format, of 0 0] have "r ! 0 = 50"
    by (simp add: consts_vals DOTIMG_SRC_WIDTH_def DOTIMG_STRIPHEIGHT_def DOTIMG_HPIXELSPAN_def
        BRIGHT_def DARK_def)
  ultimately show ?thesis using r(1) by blast
qed

text \<open>
  C9. The generator with the never negative modulus fills every buffer exactly as
  \<open>rs_generate_dot_pattern\<close> does: for a column \<open>i\<close> in \<open>[HCENTER, SRC_WIDTH - HCENTER)\<close> and a
  strip in \<open>[0, NUMSTRIPS)\<close> the difference \<open>i - strip\<close> is at least
  \<open>HCENTER - (NUMSTRIPS - 1) = -12\<close>, a negative difference is never congruent to
  \<open>HCENTER\<close>, and the two remainders pick the same bright pixels.
\<close>

theorem dot_pattern_floor_same:
  "rs_generate_dot_pattern_floor buf = rs_generate_dot_pattern buf \<and>
   (\<forall>i strip. DOTIMG_HCENTER \<le> i \<and> i < DOTIMG_SRC_WIDTH - DOTIMG_HCENTER \<and>
        0 \<le> strip \<and> strip < DOTIMG_NUMSTRIPS \<longrightarrow>
        DOTIMG_HCENTER - (DOTIMG_NUMSTRIPS - 1) \<le> i - strip \<and>
        DOTIMG_HCENTER - (DOTIMG_NUMSTRIPS - 1) = - 12 \<and>
        (i - strip < 0 \<longrightarrow> (i - strip) mod DOTIMG_HPIXELSPAN \<noteq> DOTIMG_HCENTER) \<and>
        ((i - strip) smod DOTIMG_HPIXELSPAN = DOTIMG_HCENTER \<longleftrightarrow>
         (i - strip) mod DOTIMG_HPIXELSPAN = DOTIMG_HCENTER))"
proof -
  have "rs_generate_dot_pattern_floor buf = rs_generate_dot_pattern buf"
    by (simp add: rs_generate_dot_pattern_floor_def rs_generate_dot_pattern_def
        dot_rows_loop_floor_eq split: sum.splits)
  moreover have "- 12 \<le> i - strip \<and>
        (i - strip < 0 \<longrightarrow> (i - strip) mod 25 \<noteq> 12) \<and>
        ((i - strip) smod 25 = 12 \<longleftrightarrow> (i - strip) mod 25 = 12)"
    if "12 \<le> i" "strip < 25" for i strip :: int
  proof -
    have d: "- 12 \<le> i - strip" using that by simp
    have "(i - strip) mod 25 \<noteq> 12" if "i - strip < 0"
      using remainder_agree[OF d] smod_neg_le[OF that, of 25] by simp
    with d remainder_agree[OF d] show ?thesis by blast
  qed
  ultimately show ?thesis
    by (simp add: consts_vals DOTIMG_SRC_WIDTH_def DOTIMG_HPIXELSPAN_def)
qed

theorem dot_pattern_floor_same_witness:
  "rs_generate_dot_pattern_floor (replicate 153175 0) = rs_generate_dot_pattern (replicate 153175 0) \<and>
   (12 - 24) mod DOTIMG_HPIXELSPAN \<noteq> DOTIMG_HCENTER \<and>
   (12 - 24) smod DOTIMG_HPIXELSPAN \<noteq> DOTIMG_HCENTER"
proof -
  have h: "DOTIMG_HCENTER \<le> 12 \<and> 12 < DOTIMG_SRC_WIDTH - DOTIMG_HCENTER \<and>
      (0::int) \<le> 24 \<and> 24 < DOTIMG_NUMSTRIPS"
    by (simp add: consts_vals DOTIMG_SRC_WIDTH_def)
  have n: "(12::int) - 24 < 0" by simp
  from dot_pattern_floor_same[of "replicate 153175 0"] h n show ?thesis by blast
qed

section \<open>The colour-space sampler\<close>


lemma read_pixel_in_range:
  assumes "0 \<le> y * stride + x" "y * stride + x < int (length buf)"
  shows "read_pixel buf stride x y srgb =
     Inr (let raw = real (unat (buf ! nat (y * stride + x))) in
          if srgb \<noteq> 0
          then (c_srgb_to_linear (raw / 255) - c_srgb_to_linear (50 / 255)) *
                 ((250 - 50) / (c_srgb_to_linear (250 / 255) - c_srgb_to_linear (50 / 255))) + 50
          else raw)"
  using assms by (simp add: read_pixel_def load_def Let_def)



section \<open>Line analysis\<close>

lemma sum_int_from:
  fixes f :: "int \<Rightarrow> real"
  assumes "i < w"
  shows "(\<Sum>k = i..<w. f k) = f i + (\<Sum>k = i + 1..<w. f k)"
proof -
  have "{i..<w} = insert i {i + 1..<w}" using assms by auto
  then show ?thesis by simp
qed

lemma rescale_store_Inr:
  assumes "rescale_store sf out idx offset weight = Inr out'"
  shows "0 \<le> idx \<and> idx < int (length (offsets out)) \<and> idx < int (length (weights out)) \<and>
         offsets out' = (offsets out)[nat idx := (if sf < 1 then offset else offset / sf)] \<and>
         weights out' = (weights out)[nat idx := (if sf < 1 then weight / sf else weight)]"
  using assms
  by (auto simp: rescale_store_def store_def Let_def split: if_splits sum.splits)

lemma rescale_store_total:
  assumes "0 \<le> idx" "idx < int (length (offsets out))" "idx < int (length (weights out))"
  shows "\<exists>out'. rescale_store sf out idx offset weight = Inr out'"
  using assms by (simp add: rescale_store_def store_def Let_def)


lemma read_pixel_error: "read_pixel buf stride x y srgb = Inl e \<Longrightarrow> e = ReadOutOfBounds"
  by (auto simp: read_pixel_def load_def Let_def split: if_splits sum.splits)

lemma read_pixel_total:
  assumes "0 \<le> y * stride + x" "y * stride + x < int (length buf)"
  shows "\<exists>v. read_pixel buf stride x y srgb = Inr v"
  using read_pixel_in_range[OF assms] by blast

lemma read_pixel_int_Inr:
  assumes "read_pixel_int buf stride x y srgb = Inr v"
  shows "read_pixel buf stride x y srgb = Inr v"
    and "int_fits (y * stride)" "int_fits (y * stride + x)"
  using assms
  by (auto simp: read_pixel_int_def pixel_index_def split: if_splits)

lemma read_pixel_int_total:
  assumes "0 \<le> y * stride + x" "y * stride + x < int (length buf)"
    and "int_fits (y * stride)" "int_fits (y * stride + x)"
  shows "\<exists>v. read_pixel_int buf stride x y srgb = Inr v"
  using read_pixel_total[OF assms(1,2)] assms(3,4)
  by (simp add: read_pixel_int_def pixel_index_def)

lemma read_pixel_int_error:
  "read_pixel_int buf stride x y srgb = Inl e \<Longrightarrow> e = ReadOutOfBounds \<or> e = SignedOverflow"
  by (auto simp: read_pixel_int_def pixel_index_def split: if_splits dest: read_pixel_error)

lemma line_column_Inr:
  assumes "line_column buf w h srgb sf sc i st = Inr st'"
  shows "\<exists>v. read_pixel buf w i (line_y h sc i) srgb = Inr v \<and>
           snd st' = snd st + (v - 50) / 200 \<and>
           0 \<le> i \<and> i < int (length (offsets (fst st))) \<and> i < int (length (weights (fst st))) \<and>
           offsets (fst st') = (offsets (fst st))[nat i :=
              (if sf < 1 then 0.5 + real_of_int i - real_of_int w / 2
               else (0.5 + real_of_int i - real_of_int w / 2) / sf)] \<and>
           weights (fst st') = (weights (fst st))[nat i :=
              (if sf < 1 then ((v - 50) / 200) / sf else (v - 50) / 200)]"
proof -
  from assms obtain v where vi: "read_pixel_int buf w i (line_y h sc i) srgb = Inr v"
    by (auto simp: line_column_def Let_def split: sum.splits)
  with assms obtain out' where
    o: "rescale_store sf (fst st) i (0.5 + real_of_int i - real_of_int w / 2) ((v - 50) / 200) = Inr out'"
      and st': "st' = (out', snd st + (v - 50) / 200)"
    by (auto simp: line_column_def Let_def split: sum.splits)
  note v = read_pixel_int_Inr(1)[OF vi]
  from rescale_store_Inr[OF o] v st' show ?thesis by simp
qed

lemma line_scan_Inr:
  assumes "line_scan buf w h srgb sf sc i st = Inr st'" "0 \<le> i"
  shows "length (offsets (fst st')) = length (offsets (fst st)) \<and>
         length (weights (fst st')) = length (weights (fst st)) \<and>
         (\<forall>n. n < nat i \<longrightarrow> offsets (fst st') ! n = offsets (fst st) ! n \<and>
                            weights (fst st') ! n = weights (fst st) ! n) \<and>
         (\<exists>v. (\<forall>k. i \<le> k \<and> k < w \<longrightarrow>
                  read_pixel buf w k (line_y h sc k) srgb = Inr (v k) \<and>
                  k < int (length (offsets (fst st))) \<and> k < int (length (weights (fst st))) \<and>
                  offsets (fst st') ! nat k =
                    (if sf < 1 then 0.5 + real_of_int k - real_of_int w / 2
                     else (0.5 + real_of_int k - real_of_int w / 2) / sf) \<and>
                  weights (fst st') ! nat k =
                    (if sf < 1 then ((v k - 50) / 200) / sf else (v k - 50) / 200)) \<and>
              snd st' = snd st + (\<Sum>k = i..<w. (v k - 50) / 200))"
  using assms
proof (induction buf w h srgb sf sc i st rule: line_scan.induct)
  case (1 buf w h srgb sf sc i st)
  show ?case
  proof (cases "i < w")
    case False
    with "1.prems" have "st' = st" by (subst (asm) line_scan.simps) simp
    with False show ?thesis by auto
  next
    case True
    from "1.prems"(1) True obtain st1 where
      c: "line_column buf w h srgb sf sc i st = Inr st1" and
      r: "line_scan buf w h srgb sf sc (i + 1) st1 = Inr st'"
      by (subst (asm) line_scan.simps) (auto split: sum.splits)
    from line_column_Inr[OF c] obtain v0 where v0:
      "read_pixel buf w i (line_y h sc i) srgb = Inr v0"
      "snd st1 = snd st + (v0 - 50) / 200"
      "i < int (length (offsets (fst st)))" "i < int (length (weights (fst st)))"
      "offsets (fst st1) = (offsets (fst st))[nat i :=
              (if sf < 1 then 0.5 + real_of_int i - real_of_int w / 2
               else (0.5 + real_of_int i - real_of_int w / 2) / sf)]"
      "weights (fst st1) = (weights (fst st))[nat i :=
              (if sf < 1 then ((v0 - 50) / 200) / sf else (v0 - 50) / 200)]"
      by blast
    from "1.IH"[OF True c r] "1.prems"(2)
    obtain v where ih:
      "length (offsets (fst st')) = length (offsets (fst st1))"
      "length (weights (fst st')) = length (weights (fst st1))"
      "\<forall>n. n < nat (i + 1) \<longrightarrow> offsets (fst st') ! n = offsets (fst st1) ! n \<and>
                            weights (fst st') ! n = weights (fst st1) ! n"
      "\<forall>k. i + 1 \<le> k \<and> k < w \<longrightarrow>
                  read_pixel buf w k (line_y h sc k) srgb = Inr (v k) \<and>
                  k < int (length (offsets (fst st1))) \<and> k < int (length (weights (fst st1))) \<and>
                  offsets (fst st') ! nat k =
                    (if sf < 1 then 0.5 + real_of_int k - real_of_int w / 2
                     else (0.5 + real_of_int k - real_of_int w / 2) / sf) \<and>
                  weights (fst st') ! nat k =
                    (if sf < 1 then ((v k - 50) / 200) / sf else (v k - 50) / 200)"
      "snd st' = snd st1 + (\<Sum>k = i + 1..<w. (v k - 50) / 200)"
      by auto
    let ?v = "v(i := v0)"
    have i_lt: "nat i < nat (i + 1)" using "1.prems"(2) by simp
    have at_i: "offsets (fst st') ! nat i = offsets (fst st1) ! nat i"
      "weights (fst st') ! nat i = weights (fst st1) ! nat i"
      using ih(3) i_lt by blast+
    have a: "length (offsets (fst st')) = length (offsets (fst st))"
      "length (weights (fst st')) = length (weights (fst st))"
      using ih(1,2) v0(5,6) by simp_all
    have b: "offsets (fst st') ! n = offsets (fst st) ! n \<and>
             weights (fst st') ! n = weights (fst st) ! n" if "n < nat i" for n
    proof -
      have "n < nat (i + 1)" "n \<noteq> nat i" using that by auto
      then show ?thesis using ih(3) v0(5,6) by simp
    qed
    have c1: "read_pixel buf w k (line_y h sc k) srgb = Inr (?v k) \<and>
                  k < int (length (offsets (fst st))) \<and> k < int (length (weights (fst st))) \<and>
                  offsets (fst st') ! nat k =
                    (if sf < 1 then 0.5 + real_of_int k - real_of_int w / 2
                     else (0.5 + real_of_int k - real_of_int w / 2) / sf) \<and>
                  weights (fst st') ! nat k =
                    (if sf < 1 then ((?v k - 50) / 200) / sf else (?v k - 50) / 200)"
      if k: "i \<le> k" "k < w" for k
    proof (cases "k = i")
      case True
      have "nat i < length (offsets (fst st))" "nat i < length (weights (fst st))"
        using v0(3,4) "1.prems"(2) by auto
      then show ?thesis using True v0 at_i by simp
    next
      case False
      then have "i + 1 \<le> k" using k by simp
      with ih(4) k have "read_pixel buf w k (line_y h sc k) srgb = Inr (v k) \<and>
                  k < int (length (offsets (fst st1))) \<and> k < int (length (weights (fst st1))) \<and>
                  offsets (fst st') ! nat k =
                    (if sf < 1 then 0.5 + real_of_int k - real_of_int w / 2
                     else (0.5 + real_of_int k - real_of_int w / 2) / sf) \<and>
                  weights (fst st') ! nat k =
                    (if sf < 1 then ((v k - 50) / 200) / sf else (v k - 50) / 200)"
        by blast
      then show ?thesis using False v0(5,6) by simp
    qed
    have "(\<Sum>k = i..<w. (?v k - 50) / 200) = (v0 - 50) / 200 + (\<Sum>k = i + 1..<w. (?v k - 50) / 200)"
      using sum_int_from[OF True, of "\<lambda>k. (?v k - 50) / 200"] by simp
    also have "(\<Sum>k = i + 1..<w. (?v k - 50) / 200) = (\<Sum>k = i + 1..<w. (v k - 50) / 200)"
      by (rule sum.cong) auto
    finally have d: "snd st' = snd st + (\<Sum>k = i..<w. (?v k - 50) / 200)"
      using ih(5) v0(2) by simp
    from a b c1 d show ?thesis by blast
  qed
qed


lemma line_y_range:
  assumes "1 \<le> h"
  shows "0 \<le> line_y h (h sdiv 2) i \<and> line_y h (h sdiv 2) i \<le> h - 1"
proof (cases "h \<ge> 3")
  case True
  then show ?thesis by (auto simp: line_y_def Let_def)
next
  case False
  then have "h = 1 \<or> h = 2" using assms by linarith
  then show ?thesis by (auto simp: line_y_def signed_divide_int_def)
qed

lemma line_index_range:
  assumes "1 \<le> h" "h * w \<le> int (length buf)" "0 \<le> i" "i < w"
  shows "0 \<le> line_y h (h sdiv 2) i * w + i"
    and "line_y h (h sdiv 2) i * w + i < h * w"
    and "line_y h (h sdiv 2) i * w + i < int (length buf)"
proof -
  let ?y = "line_y h (h sdiv 2) i"
  have y: "0 \<le> ?y" "?y \<le> h - 1" using line_y_range[OF assms(1)] by auto
  have w: "0 \<le> w" using assms by simp
  then have "0 \<le> ?y * w" using y(1) by simp
  then show "0 \<le> ?y * w + i" using assms(3) by simp
  have "?y * w \<le> (h - 1) * w" using y(2) w by (rule mult_right_mono)
  then have "?y * w + i < (h - 1) * w + w" using assms(4) by linarith
  then show "?y * w + i < h * w" by (simp add: algebra_simps)
  then show "?y * w + i < int (length buf)" using assms(2) by linarith
qed

lemma line_index_fits:
  assumes "1 \<le> h" "h * w \<le> INT_MAX" "0 \<le> i" "i < w"
  shows "int_fits (line_y h (h sdiv 2) i * w)"
    and "int_fits (line_y h (h sdiv 2) i * w + i)"
proof -
  let ?y = "line_y h (h sdiv 2) i"
  have y: "0 \<le> ?y" "?y \<le> h - 1" using line_y_range[OF assms(1)] by auto
  have w: "0 \<le> w" using assms by simp
  then have p: "0 \<le> ?y * w" using y(1) by simp
  have "?y * w \<le> (h - 1) * w" using y(2) w by (rule mult_right_mono)
  then have "?y * w + i < (h - 1) * w + w" using assms(4) by linarith
  then have "?y * w + i < h * w" by (simp add: algebra_simps)
  then have u: "?y * w + i \<le> INT_MAX" using assms(2) by linarith
  show "int_fits (?y * w)" using p u assms(3) by (simp add: int_fits_def INT_MIN_def INT_MAX_def)
  show "int_fits (?y * w + i)"
    using p u assms(3) by (simp add: int_fits_def INT_MIN_def INT_MAX_def)
qed

lemma line_read_total:
  assumes "1 \<le> h" "h * w \<le> INT_MAX" "h * w \<le> int (length buf)" "0 \<le> i" "i < w"
  shows "\<exists>v. read_pixel_int buf w i (line_y h (h sdiv 2) i) srgb = Inr v"
  using line_index_range[OF assms(1,3,4,5)] line_index_fits[OF assms(1,2,4,5)]
  by (intro read_pixel_int_total) auto



lemma line_column_total:
  assumes "\<exists>v. read_pixel_int buf w i (line_y h sc i) srgb = Inr v"
    and "0 \<le> i" "i < int (length (offsets (fst st)))" "i < int (length (weights (fst st)))"
  shows "\<exists>st'. line_column buf w h srgb sf sc i st = Inr st'"
proof -
  from assms(1) obtain v where v: "read_pixel_int buf w i (line_y h sc i) srgb = Inr v" by blast
  from rescale_store_total[OF assms(2-4)] obtain out' where
    "rescale_store sf (fst st) i (0.5 + real_of_int i - real_of_int w / 2) ((v - 50) / 200) = Inr out'"
    by blast
  then show ?thesis using v by (simp add: line_column_def Let_def)
qed

lemma line_scan_total:
  assumes "\<forall>k. i \<le> k \<and> k < w \<longrightarrow> (\<exists>v. read_pixel_int buf w k (line_y h sc k) srgb = Inr v)"
    and "0 \<le> i" "w \<le> int (length (offsets (fst st)))" "w \<le> int (length (weights (fst st)))"
  shows "\<exists>st'. line_scan buf w h srgb sf sc i st = Inr st'"
  using assms
proof (induction buf w h srgb sf sc i st rule: line_scan.induct)
  case (1 buf w h srgb sf sc i st)
  show ?case
  proof (cases "i < w")
    case False
    then show ?thesis by (subst line_scan.simps) simp
  next
    case True
    have "\<exists>v. read_pixel_int buf w i (line_y h sc i) srgb = Inr v"
      using "1.prems"(1) True by simp
    from line_column_total[OF this "1.prems"(2)] True "1.prems"(3,4)
    obtain st1 where c: "line_column buf w h srgb sf sc i st = Inr st1"
      by (metis less_le_trans)
    from line_column_Inr[OF c]
    have len: "length (offsets (fst st1)) = length (offsets (fst st))"
      "length (weights (fst st1)) = length (weights (fst st))"
      by auto
    have "\<exists>st'. line_scan buf w h srgb sf sc (i + 1) st1 = Inr st'"
      using "1.IH"[OF True c] "1.prems" len by simp
    then show ?thesis using True c by (subst line_scan.simps) simp
  qed
qed

lemma rs_analyze_line_Inr:
  assumes "rs_analyze_line buf w h srgb out = Inr (sf, out', area)"
  shows "sf = real_of_int w / 15 \<and>
         length (offsets out') = length (offsets out) \<and>
         length (weights out') = length (weights out) \<and>
         (\<exists>v. (\<forall>k. 0 \<le> k \<and> k < w \<longrightarrow>
                  read_pixel buf w k (line_y h (h sdiv 2) k) srgb = Inr (v k) \<and>
                  k < int (length (offsets out)) \<and> k < int (length (weights out)) \<and>
                  offsets out' ! nat k =
                    (if sf < 1 then 0.5 + real_of_int k - real_of_int w / 2
                     else (0.5 + real_of_int k - real_of_int w / 2) / sf) \<and>
                  weights out' ! nat k =
                    (if sf < 1 then ((v k - 50) / 200) / sf else (v k - 50) / 200)) \<and>
              area = double_div (\<Sum>k = 0..<w. (v k - 50) / 200) sf)"
proof -
  from assms obtain tot where
    s: "line_scan buf w h srgb (real_of_int w / 15) (h sdiv 2) 0 (out, 0) = Inr (out', tot)"
    and sf: "sf = real_of_int w / 15" and area: "area = double_div tot sf"
    by (auto simp: rs_analyze_line_def Let_def LINEIMG_SRC_WIDTH_def split: sum.splits)
  from s have s': "line_scan buf w h srgb sf (h sdiv 2) 0 (out, 0) = Inr (out', tot)"
    unfolding sf .
  from line_scan_Inr[OF s'] obtain v where v:
    "length (offsets out') = length (offsets out)"
    "length (weights out') = length (weights out)"
    "\<forall>k. 0 \<le> k \<and> k < w \<longrightarrow>
                  read_pixel buf w k (line_y h (h sdiv 2) k) srgb = Inr (v k) \<and>
                  k < int (length (offsets out)) \<and> k < int (length (weights out)) \<and>
                  offsets out' ! nat k =
                    (if sf < 1 then 0.5 + real_of_int k - real_of_int w / 2
                     else (0.5 + real_of_int k - real_of_int w / 2) / sf) \<and>
                  weights out' ! nat k =
                    (if sf < 1 then ((v k - 50) / 200) / sf else (v k - 50) / 200)"
    "tot = (\<Sum>k = 0..<w. (v k - 50) / 200)"
    by auto
  from v(4) area have "area = double_div (\<Sum>k = 0..<w. (v k - 50) / 200) sf" by simp
  with v(1,2,3) sf show ?thesis by blast
qed

lemma rs_analyze_line_total:
  assumes "0 \<le> w" "1 \<le> h" "h * w \<le> INT_MAX" "h * w \<le> int (length buf)"
    and "w \<le> int (length (offsets out))" "w \<le> int (length (weights out))"
  shows "\<exists>out' area. rs_analyze_line buf w h srgb out = Inr (real_of_int w / 15, out', area)"
proof -
  have "\<forall>k. 0 \<le> k \<and> k < w \<longrightarrow>
      (\<exists>v. read_pixel_int buf w k (line_y h (h sdiv 2) k) srgb = Inr v)"
    using line_read_total[OF assms(2,3,4)] by blast
  from line_scan_total[OF this, where st = "(out, 0)" and sf = "real_of_int w / 15"] assms(5,6)
  obtain st' where
    "line_scan buf w h srgb (real_of_int w / 15) (h sdiv 2) 0 (out, 0) = Inr st'"
    by auto
  then show ?thesis
    by (cases st') (simp add: rs_analyze_line_def Let_def LINEIMG_SRC_WIDTH_def)
qed

lemmas line_eval = rs_analyze_line_def line_scan.simps line_column_def line_y_def
  read_pixel_int_def pixel_index_def int_fits_def INT_MAX_def INT_MIN_def double_div_def
  read_pixel_def load_def rescale_store_def store_def Let_def LINEIMG_SRC_WIDTH_def
  signed_divide_int_def signed_modulo_int_def

lemma line_run_small:
  "rs_analyze_line [250, 50] 2 1 0 \<lparr>offsets = [0, 0], weights = [0, 0]\<rparr> =
     Inr (2 / 15, \<lparr>offsets = [- 1 / 2, 1 / 2], weights = [15 / 2, 0]\<rparr>, Some (15 / 2))"
  by (simp add: line_eval)


lemma line_run_empty:
  "rs_analyze_line [] 0 1 0 \<lparr>offsets = [], weights = []\<rparr> =
     Inr (0, \<lparr>offsets = [], weights = []\<rparr>, None)"
  by (simp add: line_eval)

text \<open>
  C7. \<open>rs_analyze_line\<close> returns, for a raster of \<open>h \<ge> 1\<close> rows and \<open>w \<ge> 0\<close> columns in a
  buffer of at least \<open>h * w\<close> bytes, with \<open>h * w\<close> an \<open>int\<close> and output arrays of at least
  \<open>w\<close> entries; and whenever it returns, the scale factor is \<open>w / LINEIMG_SRC_WIDTH\<close> and
  the area is the sum over the \<open>w\<close> columns of the weight before rescaling,
  (sampled value - 50) / 200, divided by the scale factor, whether the scale factor is
  below 1 or not. For \<open>w = 0\<close> that quotient is 0.0 / 0.0, not a number.
\<close>

theorem line_area:
  "(rs_analyze_line resized w h srgb out = Inr (scale_factor, out', area) \<longrightarrow>
      scale_factor = real_of_int w / real_of_int LINEIMG_SRC_WIDTH \<and>
      (\<exists>v. (\<forall>i. 0 \<le> i \<and> i < w \<longrightarrow>
               read_pixel resized w i (line_y h (h sdiv 2) i) srgb = Inr (v i)) \<and>
           area = double_div (\<Sum>i = 0..<w. (v i - 50) / 200) scale_factor \<and>
           (w \<noteq> 0 \<longrightarrow> area = Some ((\<Sum>i = 0..<w. (v i - 50) / 200) / scale_factor)) \<and>
           (w = 0 \<longrightarrow> area = None))) \<and>
   (0 \<le> w \<and> 1 \<le> h \<and> h * w \<le> INT_MAX \<and> h * w \<le> int (length resized) \<and>
    w \<le> int (length (offsets out)) \<and> w \<le> int (length (weights out)) \<longrightarrow>
      (\<exists>out' area. rs_analyze_line resized w h srgb out =
         Inr (real_of_int w / real_of_int LINEIMG_SRC_WIDTH, out', area)))"
proof (intro conjI impI)
  assume a: "rs_analyze_line resized w h srgb out = Inr (scale_factor, out', area)"
  from rs_analyze_line_Inr[OF a] obtain v where v:
    "scale_factor = real_of_int w / 15"
    "\<forall>k. 0 \<le> k \<and> k < w \<longrightarrow>
        read_pixel resized w k (line_y h (h sdiv 2) k) srgb = Inr (v k)"
    "area = double_div (\<Sum>k = 0..<w. (v k - 50) / 200) scale_factor"
    by blast
  show "scale_factor = real_of_int w / real_of_int LINEIMG_SRC_WIDTH"
    using v(1) by (simp add: LINEIMG_SRC_WIDTH_def)
  have z: "scale_factor = 0 \<longleftrightarrow> w = 0" unfolding v(1) by simp
  have "w \<noteq> 0 \<longrightarrow> area = Some ((\<Sum>i = 0..<w. (v i - 50) / 200) / scale_factor)"
    "w = 0 \<longrightarrow> area = None"
    using v(3) z by (simp_all add: double_div_def)
  with v(2,3) show "\<exists>v. (\<forall>i. 0 \<le> i \<and> i < w \<longrightarrow>
               read_pixel resized w i (line_y h (h sdiv 2) i) srgb = Inr (v i)) \<and>
           area = double_div (\<Sum>i = 0..<w. (v i - 50) / 200) scale_factor \<and>
           (w \<noteq> 0 \<longrightarrow> area = Some ((\<Sum>i = 0..<w. (v i - 50) / 200) / scale_factor)) \<and>
           (w = 0 \<longrightarrow> area = None)"
    by blast
next
  assume "0 \<le> w \<and> 1 \<le> h \<and> h * w \<le> INT_MAX \<and> h * w \<le> int (length resized) \<and>
    w \<le> int (length (offsets out)) \<and> w \<le> int (length (weights out))"
  then show "\<exists>out' area. rs_analyze_line resized w h srgb out =
         Inr (real_of_int w / real_of_int LINEIMG_SRC_WIDTH, out', area)"
    using rs_analyze_line_total[of w h resized out srgb] by (simp add: LINEIMG_SRC_WIDTH_def)
qed

theorem line_area_witness:
  "rs_analyze_line [250, 50] 2 1 0 \<lparr>offsets = [0, 0], weights = [0, 0]\<rparr> =
     Inr (2 / 15, \<lparr>offsets = [- 1 / 2, 1 / 2], weights = [15 / 2, 0]\<rparr>, Some (15 / 2)) \<and>
   (\<exists>v. read_pixel [250, 50] 2 0 (line_y 1 (1 sdiv 2) 0) 0 = Inr (v 0) \<and>
        read_pixel [250, 50] 2 1 (line_y 1 (1 sdiv 2) 1) 0 = Inr (v 1) \<and>
        Some (15 / 2 :: real) = Some ((\<Sum>i = 0..<(2::int). (v i - 50) / 200) / (2 / 15))) \<and>
   (\<exists>out' area. rs_analyze_line [250, 50] 2 1 0 \<lparr>offsets = [0, 0], weights = [0, 0]\<rparr> =
      Inr (real_of_int 2 / real_of_int LINEIMG_SRC_WIDTH, out', area)) \<and>
   rs_analyze_line [] 0 1 0 \<lparr>offsets = [], weights = []\<rparr> =
     Inr (0, \<lparr>offsets = [], weights = []\<rparr>, None)"
proof -
  note t = line_area[where resized = "[250, 50]" and w = 2 and h = 1 and srgb = 0
      and out = "\<lparr>offsets = [0, 0], weights = [0, 0]\<rparr>" and scale_factor = "2 / 15"
      and out' = "\<lparr>offsets = [- 1 / 2, 1 / 2], weights = [15 / 2, 0]\<rparr>"
      and area = "Some (15 / 2)"]
  from t[THEN conjunct1, rule_format, OF line_run_small] obtain v where
    v: "\<forall>i. 0 \<le> i \<and> i < 2 \<longrightarrow>
          read_pixel [250, 50] 2 i (line_y 1 (1 sdiv 2) i) 0 = Inr (v i)"
       "(2::int) \<noteq> 0 \<longrightarrow>
          Some (15 / 2 :: real) = Some ((\<Sum>i = 0..<(2::int). (v i - 50) / 200) / (2 / 15))"
    by blast
  from v(1) have r: "read_pixel [250, 50] 2 0 (line_y 1 (1 sdiv 2) 0) 0 = Inr (v 0)"
    "read_pixel [250, 50] 2 1 (line_y 1 (1 sdiv 2) 1) 0 = Inr (v 1)"
    by simp_all
  from v(2) have q:
    "Some (15 / 2 :: real) = Some ((\<Sum>i = 0..<(2::int). (v i - 50) / 200) / (2 / 15))"
    by simp
  have "(0::int) \<le> 2 \<and> (1::int) \<le> 1 \<and> (1::int) * 2 \<le> INT_MAX \<and>
      (1::int) * 2 \<le> int (length [250, 50 :: u8]) \<and>
      2 \<le> int (length (offsets \<lparr>offsets = [0, 0], weights = [0, 0]\<rparr>)) \<and>
      2 \<le> int (length (weights \<lparr>offsets = [0, 0], weights = [0, 0]\<rparr>))"
    by (simp add: INT_MAX_def)
  from t[THEN conjunct2, rule_format, OF this]
  have e: "\<exists>out' area. rs_analyze_line [250, 50] 2 1 0 \<lparr>offsets = [0, 0], weights = [0, 0]\<rparr> =
      Inr (real_of_int 2 / real_of_int LINEIMG_SRC_WIDTH, out', area)" .
  from line_area[THEN conjunct1, rule_format, OF line_run_empty]
  have "\<exists>v :: int \<Rightarrow> real. ((0::int) = 0 \<longrightarrow> (None :: real option) = None)" by blast
  with r q e line_run_small line_run_empty show ?thesis by blast
qed






section \<open>Dot analysis\<close>

lemma take_update_last:
  assumes "n < length xs"
  shows "take (Suc n) (xs[n := v]) = take n xs @ [v]"
  using assms by (simp add: take_Suc_conv_app_nth)

lemma emitted_push:
  assumes "0 \<le> c" "c < int (length os)" "c < int (length ws)"
  shows "emitted (\<lparr>offsets = os[nat c := x], weights = ws[nat c := y]\<rparr>, c + 1) =
         emitted (\<lparr>offsets = os, weights = ws\<rparr>, c) @ [(x, y)]"
proof -
  have n: "nat (c + 1) = Suc (nat c)" "nat c < length os" "nat c < length ws"
    using assms by auto
  have l: "length (take (nat c) os) = length (take (nat c) ws)"
    using n by simp
  show ?thesis
    by (simp add: emitted_def n take_update_last zip_append[OF l])
qed

lemma dot_column_Inr:
  assumes "dot_column buf w srgb sf strip dstpos st = Inr st'"
    and "0 \<le> snd st"
  shows "emitted st' = emitted st @ map (rescaled sf) (dot_column_points buf w srgb sf strip dstpos) \<and>
         length (offsets (fst st')) = length (offsets (fst st)) \<and>
         length (weights (fst st')) = length (weights (fst st)) \<and>
         snd st \<le> snd st' \<and> snd st' \<le> snd st + 1 \<and>
         (snd st' \<noteq> snd st \<longrightarrow> snd st' \<le> int (length (offsets (fst st))) \<and>
                                 snd st' \<le> int (length (weights (fst st))))"
proof (cases "dot_point buf w srgb sf strip dstpos")
  case (Inl e)
  with assms show ?thesis by (simp add: dot_column_def)
next
  case (Inr r)
  show ?thesis
  proof (cases r)
    case None
    with Inr assms show ?thesis by (simp add: dot_column_def dot_column_points_def)
  next
    case (Some p)
    obtain off wt where p: "p = (off, wt)" by (cases p)
    from assms(1) Inr Some p obtain out' where
      o: "rescale_store sf (fst st) (snd st) off wt = Inr out'" and st': "st' = (out', snd st + 1)"
      by (auto simp: dot_column_def split: sum.splits)
    have r: "0 \<le> snd st \<and> snd st < int (length (offsets (fst st))) \<and>
         snd st < int (length (weights (fst st))) \<and>
         offsets out' = (offsets (fst st))[nat (snd st) := (if sf < 1 then off else off / sf)] \<and>
         weights out' = (weights (fst st))[nat (snd st) := (if sf < 1 then wt / sf else wt)]"
      using o by (auto simp: rescale_store_def store_def Let_def split: if_splits sum.splits)
    have eq: "out' = \<lparr>offsets = (offsets (fst st))[nat (snd st) := (if sf < 1 then off else off / sf)],
          weights = (weights (fst st))[nat (snd st) := (if sf < 1 then wt / sf else wt)]\<rparr>"
      using r by simp
    have st: "st = (\<lparr>offsets = offsets (fst st), weights = weights (fst st)\<rparr>, snd st)"
      by (cases st) simp
    have "emitted st' = emitted st @ [(if sf < 1 then off else off / sf, if sf < 1 then wt / sf else wt)]"
      unfolding st' eq using emitted_push[of "snd st" "offsets (fst st)" "weights (fst st)"] r st
      by simp
    moreover have "dot_column_points buf w srgb sf strip dstpos = [(off, wt)]"
      using Inr Some p by (simp add: dot_column_points_def)
    ultimately show ?thesis using r st' eq by (simp add: rescaled_def)
  qed
qed

lemma dot_strip_points_step:
  "dstpos < w \<Longrightarrow> dot_strip_points buf w srgb sf strip dstpos =
     dot_column_points buf w srgb sf strip dstpos @ dot_strip_points buf w srgb sf strip (dstpos + 1)"
  "\<not> dstpos < w \<Longrightarrow> dot_strip_points buf w srgb sf strip dstpos = []"
  by (simp_all add: dot_strip_points_def upto_rec1)

lemma dot_points_from_step:
  "strip < DOTIMG_NUMSTRIPS \<Longrightarrow> dot_points_from buf w srgb sf strip =
     dot_strip_points buf w srgb sf strip 0 @ dot_points_from buf w srgb sf (strip + 1)"
  "\<not> strip < DOTIMG_NUMSTRIPS \<Longrightarrow> dot_points_from buf w srgb sf strip = []"
  by (simp_all add: dot_points_from_def upto_rec1)

lemma dot_cols_scan_Inr:
  assumes "dot_cols_scan buf w srgb sf strip dstpos st = Inr st'"
    and "0 \<le> snd st" "snd st \<le> int (length (offsets (fst st)))"
    "snd st \<le> int (length (weights (fst st)))"
  shows "emitted st' = emitted st @ map (rescaled sf) (dot_strip_points buf w srgb sf strip dstpos) \<and>
         length (offsets (fst st')) = length (offsets (fst st)) \<and>
         length (weights (fst st')) = length (weights (fst st)) \<and>
         snd st \<le> snd st' \<and> snd st' \<le> int (length (offsets (fst st))) \<and>
         snd st' \<le> int (length (weights (fst st)))"
  using assms
proof (induction buf w srgb sf strip dstpos st rule: dot_cols_scan.induct)
  case (1 buf w srgb sf strip dstpos st)
  show ?case
  proof (cases "dstpos < w")
    case False
    with "1.prems" have "st' = st" by (subst (asm) dot_cols_scan.simps) simp
    with False "1.prems" show ?thesis by (simp add: dot_strip_points_step)
  next
    case True
    from "1.prems"(1) True obtain st1 where
      c: "dot_column buf w srgb sf strip dstpos st = Inr st1" and
      r: "dot_cols_scan buf w srgb sf strip (dstpos + 1) st1 = Inr st'"
      by (subst (asm) dot_cols_scan.simps) (auto split: sum.splits)
    note a = dot_column_Inr[OF c "1.prems"(2)]
    have b: "0 \<le> snd st1" "snd st1 \<le> int (length (offsets (fst st1)))"
      "snd st1 \<le> int (length (weights (fst st1)))"
      using a "1.prems"(2,3,4) by (auto split: if_splits)
    note ih = "1.IH"[OF True c r b]
    show ?thesis using a ih True by (simp add: dot_strip_points_step)
  qed
qed

lemma dot_strips_scan_Inr:
  assumes "dot_strips_scan buf w srgb sf strip st = Inr st'"
    and "0 \<le> snd st" "snd st \<le> int (length (offsets (fst st)))"
    "snd st \<le> int (length (weights (fst st)))"
  shows "emitted st' = emitted st @ map (rescaled sf) (dot_points_from buf w srgb sf strip) \<and>
         length (offsets (fst st')) = length (offsets (fst st)) \<and>
         length (weights (fst st')) = length (weights (fst st)) \<and>
         snd st \<le> snd st' \<and> snd st' \<le> int (length (offsets (fst st))) \<and>
         snd st' \<le> int (length (weights (fst st)))"
  using assms
proof (induction buf w srgb sf strip st rule: dot_strips_scan.induct)
  case (1 buf w srgb sf strip st)
  show ?case
  proof (cases "strip < DOTIMG_NUMSTRIPS")
    case False
    with "1.prems" have "st' = st" by (subst (asm) dot_strips_scan.simps) simp
    with False "1.prems" show ?thesis by (simp add: dot_points_from_step)
  next
    case True
    from "1.prems"(1) True obtain st1 where
      c: "dot_cols_scan buf w srgb sf strip 0 st = Inr st1" and
      r: "dot_strips_scan buf w srgb sf (strip + 1) st1 = Inr st'"
      by (subst (asm) dot_strips_scan.simps) (auto split: sum.splits)
    note a = dot_cols_scan_Inr[OF c "1.prems"(2,3,4)]
    have b: "0 \<le> snd st1" "snd st1 \<le> int (length (offsets (fst st1)))"
      "snd st1 \<le> int (length (weights (fst st1)))"
      using a "1.prems"(2) by auto
    note ih = "1.IH"[OF True c r b]
    show ?thesis using a ih True by (simp add: dot_points_from_step)
  qed
qed

lemma rs_analyze_dot_Inr:
  assumes "rs_analyze_dot buf w h srgb out = Inr (sf, out', count)"
  shows "sf = real_of_int w / 557 \<and>
         emitted (out', count) = map (rescaled sf) (dot_points buf w srgb sf) \<and>
         length (offsets out') = length (offsets out) \<and>
         length (weights out') = length (weights out) \<and>
         0 \<le> count \<and> count \<le> int (length (offsets out)) \<and> count \<le> int (length (weights out))"
proof -
  from assms have
    s: "dot_strips_scan buf w srgb (real_of_int w / 557) 0 (out, 0) = Inr (out', count)"
    and sf: "sf = real_of_int w / 557"
    by (auto simp: rs_analyze_dot_def Let_def DOTIMG_SRC_WIDTH_def split: sum.splits)
  from s have s': "dot_strips_scan buf w srgb sf 0 (out, 0) = Inr (out', count)"
    unfolding sf .
  have e: "emitted (out, 0) = []" by (simp add: emitted_def)
  from dot_strips_scan_Inr[OF s'] have
    "emitted (out', count) = emitted (out, 0) @ map (rescaled sf) (dot_points buf w srgb sf)"
    "length (offsets out') = length (offsets out)"
    "length (weights out') = length (weights out)"
    "0 \<le> count" "count \<le> int (length (offsets out))" "count \<le> int (length (weights out))"
    by (simp_all add: dot_points_def)
  with e sf show ?thesis by (simp only: append_Nil simp_thms)
qed

lemma emitted_nth:
  assumes "emitted (out, count) = ps" "0 \<le> count" "count \<le> int (length (offsets out))"
    "count \<le> int (length (weights out))"
  shows "count = int (length ps)"
    and "\<forall>n < length ps. offsets out ! n = fst (ps ! n) \<and> weights out ! n = snd (ps ! n)"
proof -
  have l: "length ps = nat count"
    using assms by (auto simp: emitted_def min_def)
  then show "count = int (length ps)" using assms(2) by simp
  show "\<forall>n < length ps. offsets out ! n = fst (ps ! n) \<and> weights out ! n = snd (ps ! n)"
  proof (intro allI impI)
    fix n assume n: "n < length ps"
    then have "n < nat count" using l by simp
    then have "ps ! n = (offsets out ! n, weights out ! n)"
      using assms by (auto simp: emitted_def)
    then show "offsets out ! n = fst (ps ! n) \<and> weights out ! n = snd (ps ! n)" by simp
  qed
qed

lemma dot_index_range:
  assumes "0 \<le> strip" "strip < 25" "0 \<le> row" "row < 11" "0 \<le> dstpos" "dstpos < w"
    "275 * w \<le> int (length buf)"
  shows "0 \<le> (11 * strip + row) * w + dstpos"
    and "(11 * strip + row) * w + dstpos < 275 * w"
    and "(11 * strip + row) * w + dstpos < int (length buf)"
proof -
  let ?y = "11 * strip + row"
  have y: "0 \<le> ?y" "?y \<le> 274" using assms by auto
  have w: "0 \<le> w" using assms by simp
  then have "0 \<le> ?y * w" using y(1) by simp
  then show "0 \<le> ?y * w + dstpos" using assms(5) by simp
  have "?y * w \<le> 274 * w" using y(2) w by (rule mult_right_mono)
  then show "?y * w + dstpos < 275 * w" using assms(6) by linarith
  then show "?y * w + dstpos < int (length buf)" using assms(7) by linarith
qed

lemma dot_index_fits:
  assumes "0 \<le> strip" "strip < 25" "0 \<le> row" "row < 11" "0 \<le> dstpos" "dstpos < w"
    "275 * w \<le> INT_MAX"
  shows "int_fits ((11 * strip + row) * w)" and "int_fits ((11 * strip + row) * w + dstpos)"
proof -
  let ?y = "11 * strip + row"
  have y: "0 \<le> ?y" "?y \<le> 274" using assms by auto
  have w: "0 \<le> w" using assms by simp
  then have p: "0 \<le> ?y * w" using y(1) by simp
  have "?y * w \<le> 274 * w" using y(2) w by (rule mult_right_mono)
  then have u: "?y * w + dstpos \<le> INT_MAX" using assms(6,7) by linarith
  show "int_fits (?y * w)" using p u assms(5) by (simp add: int_fits_def INT_MIN_def INT_MAX_def)
  show "int_fits (?y * w + dstpos)"
    using p u assms(5) by (simp add: int_fits_def INT_MIN_def INT_MAX_def)
qed

lemma dot_sum_loop_total:
  assumes "\<forall>r. row \<le> r \<and> r < 11 \<longrightarrow> (\<exists>v. read_pixel_int buf w dstpos (11 * strip + r) srgb = Inr v)"
  shows "\<exists>t. dot_sum_loop buf w srgb strip dstpos row tot = Inr t"
  using assms
proof (induction buf w srgb strip dstpos row tot rule: dot_sum_loop.induct)
  case (1 buf w srgb strip dstpos row tot)
  show ?case
  proof (cases "row < 11")
    case False
    then show ?thesis by (subst dot_sum_loop.simps) (simp add: DOTIMG_STRIPHEIGHT_def)
  next
    case True
    with "1.prems" obtain v where v: "read_pixel_int buf w dstpos (11 * strip + row) srgb = Inr v"
      by auto
    have "\<exists>t. dot_sum_loop buf w srgb strip dstpos (row + 1) (tot + (v - 50)) = Inr t"
      using "1.IH"[of "11 * strip + row" v] True v "1.prems"
      by (simp add: DOTIMG_STRIPHEIGHT_def)
    then show ?thesis
      using True v by (subst dot_sum_loop.simps) (simp add: DOTIMG_STRIPHEIGHT_def Let_def)
  qed
qed

lemma dot_sum_loop_Inr:
  assumes "dot_sum_loop buf w srgb strip dstpos row tot = Inr t"
  shows "\<exists>v. (\<forall>r. row \<le> r \<and> r < 11 \<longrightarrow>
                 read_pixel_int buf w dstpos (11 * strip + r) srgb = Inr (v r)) \<and>
             t = tot + (\<Sum>r = row..<11. v r - 50)"
  using assms
proof (induction buf w srgb strip dstpos row tot rule: dot_sum_loop.induct)
  case (1 buf w srgb strip dstpos row tot)
  show ?case
  proof (cases "row < 11")
    case False
    with "1.prems" have "t = tot"
      by (subst (asm) dot_sum_loop.simps) (simp add: DOTIMG_STRIPHEIGHT_def)
    with False show ?thesis by auto
  next
    case True
    from "1.prems" True obtain v0 where
      v0: "read_pixel_int buf w dstpos (11 * strip + row) srgb = Inr v0" and
      r: "dot_sum_loop buf w srgb strip dstpos (row + 1) (tot + (v0 - 50)) = Inr t"
      by (subst (asm) dot_sum_loop.simps)
         (auto simp: DOTIMG_STRIPHEIGHT_def Let_def split: sum.splits)
    from "1.IH"[of "11 * strip + row" v0] True v0 r
    obtain v where v: "\<forall>r. row + 1 \<le> r \<and> r < 11 \<longrightarrow>
                 read_pixel_int buf w dstpos (11 * strip + r) srgb = Inr (v r)"
      "t = tot + (v0 - 50) + (\<Sum>r = row + 1..<11. v r - 50)"
      by (auto simp: DOTIMG_STRIPHEIGHT_def)
    let ?v = "v(row := v0)"
    have a: "read_pixel_int buf w dstpos (11 * strip + r) srgb = Inr (?v r)"
      if "row \<le> r" "r < 11" for r
      using that v(1) v0 by (cases "r = row") auto
    have "(\<Sum>r = row..<11. ?v r - 50) = (v0 - 50) + (\<Sum>r = row + 1..<11. ?v r - 50)"
      using sum_int_from[OF True, of "\<lambda>r. ?v r - 50"] by simp
    also have "(\<Sum>r = row + 1..<11. ?v r - 50) = (\<Sum>r = row + 1..<11. v r - 50)"
      by (rule sum.cong) auto
    finally have "t = tot + (\<Sum>r = row..<11. ?v r - 50)" using v(2) by simp
    with a show ?thesis by blast
  qed
qed

lemma dot_point_total:
  assumes "0 \<le> strip" "strip < 25" "0 \<le> dstpos" "dstpos < w" "275 * w \<le> int (length buf) \<and> 275 * w \<le> INT_MAX"
  shows "\<exists>r. dot_point buf w srgb sf strip dstpos = Inr r"
proof -
  have b: "275 * w \<le> int (length buf)" "275 * w \<le> INT_MAX" using assms(5) by auto
  have "\<exists>v. read_pixel_int buf w dstpos (11 * strip + r) srgb = Inr v"
    if "0 \<le> r" "r < 11" for r
    using dot_index_range[OF assms(1,2) that assms(3,4) b(1)]
      dot_index_fits[OF assms(1,2) that assms(3,4) b(2)]
    by (intro read_pixel_int_total) auto
  then have "\<exists>t. dot_sum_loop buf w srgb strip dstpos 0 0 = Inr t"
    by (intro dot_sum_loop_total) auto
  then show ?thesis by (auto simp: dot_point_def Let_def)
qed

lemma dot_column_total:
  assumes "0 \<le> strip" "strip < 25" "0 \<le> dstpos" "dstpos < w" "275 * w \<le> int (length buf) \<and> 275 * w \<le> INT_MAX"
    and "0 \<le> snd st" "snd st < int (length (offsets (fst st)))"
    "snd st < int (length (weights (fst st)))"
  shows "\<exists>st'. dot_column buf w srgb sf strip dstpos st = Inr st'"
proof -
  from dot_point_total[OF assms(1-5)] obtain r where
    r: "dot_point buf w srgb sf strip dstpos = Inr r" by blast
  show ?thesis
  proof (cases r)
    case None
    with r show ?thesis by (simp add: dot_column_def)
  next
    case (Some p)
    obtain off wt where p: "p = (off, wt)" by (cases p)
    from rescale_store_total[OF assms(6-8)] obtain out' where
      "rescale_store sf (fst st) (snd st) off wt = Inr out'" by blast
    with r Some p show ?thesis by (simp add: dot_column_def)
  qed
qed

lemma dot_cols_scan_total:
  assumes "0 \<le> strip" "strip < 25" "0 \<le> dstpos" "dstpos \<le> w" "275 * w \<le> int (length buf) \<and> 275 * w \<le> INT_MAX"
    and "0 \<le> snd st" "snd st + (w - dstpos) \<le> int (length (offsets (fst st)))"
    "snd st + (w - dstpos) \<le> int (length (weights (fst st)))"
  shows "\<exists>st'. dot_cols_scan buf w srgb sf strip dstpos st = Inr st' \<and>
           snd st' \<le> snd st + (w - dstpos)"
  using assms
proof (induction buf w srgb sf strip dstpos st rule: dot_cols_scan.induct)
  case (1 buf w srgb sf strip dstpos st)
  show ?case
  proof (cases "dstpos < w")
    case False
    then show ?thesis using "1.prems"(4) by (subst dot_cols_scan.simps) simp
  next
    case True
    have "snd st < int (length (offsets (fst st)))" "snd st < int (length (weights (fst st)))"
      using "1.prems"(7,8) True by linarith+
    from dot_column_total[OF "1.prems"(1,2,3) True "1.prems"(5,6) this]
    obtain st1 where c: "dot_column buf w srgb sf strip dstpos st = Inr st1" by blast
    note a = dot_column_Inr[OF c "1.prems"(6)]
    have "\<exists>st'. dot_cols_scan buf w srgb sf strip (dstpos + 1) st1 = Inr st' \<and>
           snd st' \<le> snd st1 + (w - (dstpos + 1))"
      using "1.IH"[OF True c] "1.prems" True a by simp
    then obtain st' where s: "dot_cols_scan buf w srgb sf strip (dstpos + 1) st1 = Inr st'"
      "snd st' \<le> snd st1 + (w - (dstpos + 1))" by blast
    have "dot_cols_scan buf w srgb sf strip dstpos st = Inr st'"
      using True c s(1) by (subst dot_cols_scan.simps) simp
    moreover have "snd st' \<le> snd st + (w - dstpos)" using s(2) a by linarith
    ultimately show ?thesis by blast
  qed
qed

lemma dot_strips_scan_total:
  assumes "0 \<le> strip" "0 \<le> w" "275 * w \<le> int (length buf) \<and> 275 * w \<le> INT_MAX"
    and "0 \<le> snd st" "snd st + (25 - strip) * w \<le> int (length (offsets (fst st)))"
    "snd st + (25 - strip) * w \<le> int (length (weights (fst st)))"
  shows "\<exists>st'. dot_strips_scan buf w srgb sf strip st = Inr st'"
  using assms
proof (induction buf w srgb sf strip st rule: dot_strips_scan.induct)
  case (1 buf w srgb sf strip st)
  show ?case
  proof (cases "strip < 25")
    case False
    then show ?thesis by (subst dot_strips_scan.simps) (simp add: consts_vals)
  next
    case True
    have e: "(25 - strip) * w = w + (25 - (strip + 1)) * w" by (simp add: algebra_simps)
    have nn: "0 \<le> (25 - (strip + 1)) * w" using True "1.prems"(2) by simp
    have "snd st + (w - 0) \<le> int (length (offsets (fst st)))"
      "snd st + (w - 0) \<le> int (length (weights (fst st)))"
      using "1.prems"(5,6) e nn by linarith+
    from dot_cols_scan_total[OF "1.prems"(1) True _ "1.prems"(2,3,4) this, of srgb sf]
    obtain st1 where c: "dot_cols_scan buf w srgb sf strip 0 st = Inr st1"
      "snd st1 \<le> snd st + (w - 0)" by blast
    note a = dot_cols_scan_Inr[OF c(1) "1.prems"(4)]
    have pre: "snd st \<le> int (length (offsets (fst st)))" "snd st \<le> int (length (weights (fst st)))"
      using "1.prems"(2,5,6) e nn by linarith+
    have "\<exists>st'. dot_strips_scan buf w srgb sf (strip + 1) st1 = Inr st'"
    proof (rule "1.IH"[OF _ c(1)])
      show "strip < DOTIMG_NUMSTRIPS" using True by (simp add: consts_vals)
      show "0 \<le> strip + 1" using "1.prems"(1) by simp
      show "0 \<le> w" by fact
      show "275 * w \<le> int (length buf) \<and> 275 * w \<le> INT_MAX" by fact
      show "0 \<le> snd st1" using a[OF pre] "1.prems"(4) by linarith
      show "snd st1 + (25 - (strip + 1)) * w \<le> int (length (offsets (fst st1)))"
        using a[OF pre] c(2) "1.prems"(5) e by simp
      show "snd st1 + (25 - (strip + 1)) * w \<le> int (length (weights (fst st1)))"
        using a[OF pre] c(2) "1.prems"(6) e by simp
    qed
    then show ?thesis
      using True c(1) by (subst dot_strips_scan.simps) (auto simp: consts_vals)
  qed
qed

lemma rs_analyze_dot_total:
  assumes "0 \<le> w" "275 * w \<le> int (length buf) \<and> 275 * w \<le> INT_MAX"
    "25 * w \<le> int (length (offsets out))" "25 * w \<le> int (length (weights out))"
  shows "\<exists>out' count. rs_analyze_dot buf w h srgb out = Inr (real_of_int w / 557, out', count)"
proof -
  from dot_strips_scan_total[of 0 w buf "(out, 0)" srgb "real_of_int w / 557"] assms
  obtain st' where "dot_strips_scan buf w srgb (real_of_int w / 557) 0 (out, 0) = Inr st'"
    by auto
  then show ?thesis
    by (cases st') (simp add: rs_analyze_dot_def Let_def DOTIMG_SRC_WIDTH_def)
qed

lemma dot_rescaled_nth:
  assumes "rs_analyze_dot buf w h srgb out = Inr (sf, out', count)"
  shows "sf = real_of_int w / 557"
    and "count = int (length (dot_points buf w srgb sf))"
    and "\<forall>n < length (dot_points buf w srgb sf).
           offsets out' ! n = fst (rescaled sf (dot_points buf w srgb sf ! n)) \<and>
           weights out' ! n = snd (rescaled sf (dot_points buf w srgb sf ! n))"
proof -
  note a = rs_analyze_dot_Inr[OF assms]
  show "sf = real_of_int w / 557" using a by simp
  have e: "emitted (out', count) = map (rescaled sf) (dot_points buf w srgb sf)"
    and c: "0 \<le> count" "count \<le> int (length (offsets out'))"
      "count \<le> int (length (weights out'))"
    using a by simp_all
  from emitted_nth(1)[OF e c] show "count = int (length (dot_points buf w srgb sf))" by simp
  from emitted_nth(2)[OF e c]
  show "\<forall>n < length (dot_points buf w srgb sf).
           offsets out' ! n = fst (rescaled sf (dot_points buf w srgb sf ! n)) \<and>
           weights out' ! n = snd (rescaled sf (dot_points buf w srgb sf ! n))"
    by simp
qed

lemma dot_nearest_loop_step:
  "k < 545 \<Longrightarrow> dot_nearest_loop sf w dstpos k offset =
     dot_nearest_loop sf w dstpos (k + 25)
       (if \<bar>dot_candidate_offset sf w dstpos k\<bar> < \<bar>offset\<bar>
        then dot_candidate_offset sf w dstpos k else offset)"
  "\<not> k < 545 \<Longrightarrow> dot_nearest_loop sf w dstpos k offset = offset"
proof -
  assume "k < 545"
  then show "dot_nearest_loop sf w dstpos k offset =
     dot_nearest_loop sf w dstpos (k + 25)
       (if \<bar>dot_candidate_offset sf w dstpos k\<bar> < \<bar>offset\<bar>
        then dot_candidate_offset sf w dstpos k else offset)"
    by (subst dot_nearest_loop.simps)
       (simp add: dot_candidate_offset_def consts_vals DOTIMG_SRC_WIDTH_def DOTIMG_HPIXELSPAN_def
        Let_def)
next
  assume "\<not> k < 545"
  then show "dot_nearest_loop sf w dstpos k offset = offset"
    by (subst dot_nearest_loop.simps)
       (simp add: consts_vals DOTIMG_SRC_WIDTH_def)
qed

lemma dot_nearest_loop_char:
  "(dot_nearest_loop sf w dstpos k offset = offset \<or>
    (\<exists>n::nat. k + 25 * int n < 545 \<and>
       dot_nearest_loop sf w dstpos k offset = dot_candidate_offset sf w dstpos (k + 25 * int n) \<and>
       \<bar>dot_candidate_offset sf w dstpos (k + 25 * int n)\<bar> < \<bar>offset\<bar>)) \<and>
   \<bar>dot_nearest_loop sf w dstpos k offset\<bar> \<le> \<bar>offset\<bar> \<and>
   (\<forall>n::nat. k + 25 * int n < 545 \<longrightarrow>
      \<bar>dot_nearest_loop sf w dstpos k offset\<bar> \<le> \<bar>dot_candidate_offset sf w dstpos (k + 25 * int n)\<bar>)"
proof (induction "nat (545 - k)" arbitrary: k offset rule: less_induct)
  case less
  show ?case
  proof (cases "k < 545")
    case False
    then have "k + 25 * int n < 545 \<Longrightarrow> False" for n by linarith
    then show ?thesis unfolding dot_nearest_loop_step(2)[OF False] by blast
  next
    case True
    define t where "t = dot_candidate_offset sf w dstpos k"
    define off1 where "off1 = (if \<bar>t\<bar> < \<bar>offset\<bar> then t else offset)"
    define r where "r = dot_nearest_loop sf w dstpos (k + 25) off1"
    have res: "dot_nearest_loop sf w dstpos k offset = r"
      unfolding dot_nearest_loop_step(1)[OF True] r_def off1_def t_def ..
    have ih: "(r = off1 \<or>
        (\<exists>n::nat. k + 25 + 25 * int n < 545 \<and>
           r = dot_candidate_offset sf w dstpos (k + 25 + 25 * int n) \<and>
           \<bar>dot_candidate_offset sf w dstpos (k + 25 + 25 * int n)\<bar> < \<bar>off1\<bar>)) \<and>
       \<bar>r\<bar> \<le> \<bar>off1\<bar> \<and>
       (\<forall>n::nat. k + 25 + 25 * int n < 545 \<longrightarrow>
          \<bar>r\<bar> \<le> \<bar>dot_candidate_offset sf w dstpos (k + 25 + 25 * int n)\<bar>)"
      using less[of "k + 25" off1] True unfolding r_def by simp
    have o1: "\<bar>off1\<bar> \<le> \<bar>offset\<bar>" "\<bar>off1\<bar> \<le> \<bar>t\<bar>" by (auto simp: off1_def)
    have suc: "k + 25 * int (Suc n) = k + 25 + 25 * int n" for n by simp
    have a: "r = offset \<or>
        (\<exists>n::nat. k + 25 * int n < 545 \<and>
           r = dot_candidate_offset sf w dstpos (k + 25 * int n) \<and>
           \<bar>dot_candidate_offset sf w dstpos (k + 25 * int n)\<bar> < \<bar>offset\<bar>)"
    proof (cases "r = off1")
      case r1: True
      show ?thesis
      proof (cases "\<bar>t\<bar> < \<bar>offset\<bar>")
        case True
        then have "r = dot_candidate_offset sf w dstpos (k + 25 * int 0)"
          "\<bar>dot_candidate_offset sf w dstpos (k + 25 * int 0)\<bar> < \<bar>offset\<bar>"
          using r1 by (simp_all add: off1_def t_def)
        moreover have "k + 25 * int 0 < 545" using \<open>k < 545\<close> by simp
        ultimately show ?thesis by blast
      next
        case False
        then show ?thesis using r1 by (simp add: off1_def)
      qed
    next
      case False
      with ih obtain n :: nat where n: "k + 25 + 25 * int n < 545"
        "r = dot_candidate_offset sf w dstpos (k + 25 + 25 * int n)"
        "\<bar>dot_candidate_offset sf w dstpos (k + 25 + 25 * int n)\<bar> < \<bar>off1\<bar>"
        by blast
      have "k + 25 * int (Suc n) < 545 \<and>
          r = dot_candidate_offset sf w dstpos (k + 25 * int (Suc n)) \<and>
          \<bar>dot_candidate_offset sf w dstpos (k + 25 * int (Suc n))\<bar> < \<bar>offset\<bar>"
        unfolding suc using n o1(1) by linarith
      then show ?thesis by blast
    qed
    have b: "\<bar>r\<bar> \<le> \<bar>offset\<bar>" using ih o1(1) by linarith
    have c: "\<bar>r\<bar> \<le> \<bar>dot_candidate_offset sf w dstpos (k + 25 * int n)\<bar>"
      if "k + 25 * int n < 545" for n
    proof (cases n)
      case 0
      then show ?thesis using ih o1(2) by (simp add: t_def)
    next
      case (Suc m)
      with that have "k + 25 + 25 * int m < 545" by simp
      with ih have "\<bar>r\<bar> \<le> \<bar>dot_candidate_offset sf w dstpos (k + 25 + 25 * int m)\<bar>" by blast
      then show ?thesis unfolding Suc suc .
    qed
    from a b c show ?thesis unfolding res by blast
  qed
qed

text \<open>What \<open>dot_point\<close> returns for a column that is not skipped.\<close>

lemma dot_point_Some:
  assumes "dot_point buf w srgb sf strip dstpos = Inr (Some (off, wt))"
  shows "off = dot_nearest_loop sf w dstpos (12 + strip) 10000 \<and> \<bar>off\<bar> \<le> sf * 12 \<and>
         (\<exists>v. (\<forall>r. 0 \<le> r \<and> r < 11 \<longrightarrow>
                  read_pixel buf w dstpos (11 * strip + r) srgb = Inr (v r)) \<and>
              wt = (\<Sum>r = 0..<11. v r - 50) / 200)"
proof -
  from assms obtain tot where
    o: "off = dot_nearest_loop sf w dstpos (12 + strip) 10000" "\<bar>off\<bar> \<le> sf * 12"
    and t: "dot_sum_loop buf w srgb strip dstpos 0 0 = Inr tot" and w: "wt = tot / 200"
    by (auto simp: dot_point_def Let_def consts_vals split: if_splits sum.splits)
  from dot_sum_loop_Inr[OF t] obtain v where v:
    "\<forall>r. 0 \<le> r \<and> r < 11 \<longrightarrow> read_pixel_int buf w dstpos (11 * strip + r) srgb = Inr (v r)"
    "tot = 0 + (\<Sum>r = 0..<11. v r - 50)"
    by blast
  from v(1) have "\<forall>r. 0 \<le> r \<and> r < 11 \<longrightarrow> read_pixel buf w dstpos (11 * strip + r) srgb = Inr (v r)"
    using read_pixel_int_Inr(1) by blast
  with v(2) w o show ?thesis by auto
qed

text \<open>Below the sentinel the loop does find the nearest dot centre.\<close>

lemma dot_nearest_below_sentinel:
  fixes scale_factor :: real and w dstpos strip :: int
  assumes "scale_factor * 12 < 10000"
  defines "best \<equiv> dot_nearest_loop scale_factor w dstpos (12 + strip) 10000"
  shows "\<bar>best\<bar> > scale_factor * 12 \<longleftrightarrow>
           (\<forall>n::nat. 12 + strip + 25 * int n < 545 \<longrightarrow>
              \<bar>dot_candidate_offset scale_factor w dstpos (12 + strip + 25 * int n)\<bar>
                > scale_factor * 12)"
    and "\<bar>best\<bar> \<le> scale_factor * 12 \<Longrightarrow>
           \<exists>n::nat. 12 + strip + 25 * int n < 545 \<and>
             best = dot_candidate_offset scale_factor w dstpos (12 + strip + 25 * int n) \<and>
             (\<forall>m::nat. 12 + strip + 25 * int m < 545 \<longrightarrow>
                \<bar>best\<bar> \<le> \<bar>dot_candidate_offset scale_factor w dstpos (12 + strip + 25 * int m)\<bar>)"
proof -
  note c = dot_nearest_loop_char[of scale_factor w dstpos "12 + strip" 10000, folded best_def]
  have min: "\<forall>m::nat. 12 + strip + 25 * int m < 545 \<longrightarrow>
      \<bar>best\<bar> \<le> \<bar>dot_candidate_offset scale_factor w dstpos (12 + strip + 25 * int m)\<bar>"
    using c by blast
  have alt: "best = 10000 \<or> (\<exists>n::nat. 12 + strip + 25 * int n < 545 \<and>
       best = dot_candidate_offset scale_factor w dstpos (12 + strip + 25 * int n))"
    using c by blast
  show "\<bar>best\<bar> > scale_factor * 12 \<longleftrightarrow>
           (\<forall>n::nat. 12 + strip + 25 * int n < 545 \<longrightarrow>
              \<bar>dot_candidate_offset scale_factor w dstpos (12 + strip + 25 * int n)\<bar>
                > scale_factor * 12)"
  proof
    assume "\<bar>best\<bar> > scale_factor * 12"
    with min show "\<forall>n::nat. 12 + strip + 25 * int n < 545 \<longrightarrow>
              \<bar>dot_candidate_offset scale_factor w dstpos (12 + strip + 25 * int n)\<bar>
                > scale_factor * 12"
      by (meson less_le_trans)
  next
    assume a: "\<forall>n::nat. 12 + strip + 25 * int n < 545 \<longrightarrow>
              \<bar>dot_candidate_offset scale_factor w dstpos (12 + strip + 25 * int n)\<bar>
                > scale_factor * 12"
    from alt show "\<bar>best\<bar> > scale_factor * 12"
    proof
      assume "best = 10000"
      then show ?thesis using assms(1) by simp
    next
      assume "\<exists>n::nat. 12 + strip + 25 * int n < 545 \<and>
       best = dot_candidate_offset scale_factor w dstpos (12 + strip + 25 * int n)"
      with a show ?thesis by auto
    qed
  qed
  assume "\<bar>best\<bar> \<le> scale_factor * 12"
  then have "best \<noteq> 10000" using assms(1) by auto
  with alt min show "\<exists>n::nat. 12 + strip + 25 * int n < 545 \<and>
             best = dot_candidate_offset scale_factor w dstpos (12 + strip + 25 * int n) \<and>
             (\<forall>m::nat. 12 + strip + 25 * int m < 545 \<longrightarrow>
                \<bar>best\<bar> \<le> \<bar>dot_candidate_offset scale_factor w dstpos (12 + strip + 25 * int m)\<bar>)"
    by blast
qed

text \<open>At most one sample for each strip and column.\<close>

lemma length_concat_le:
  assumes "\<forall>x \<in> set xs. length (f x) \<le> n"
  shows "length (concat (map f xs)) \<le> n * length xs"
  using assms by (induction xs) (auto simp: add_mono)

lemma dot_strip_points_length:
  "length (dot_strip_points buf w srgb sf strip 0) \<le> nat w"
proof -
  have "length (dot_column_points buf w srgb sf strip d) \<le> 1" for d
    by (simp add: dot_column_points_def split: sum.splits option.splits)
  then have "length (dot_strip_points buf w srgb sf strip 0) \<le> 1 * length [0..w - 1]"
    unfolding dot_strip_points_def by (intro length_concat_le) simp
  then show ?thesis by simp
qed

lemma dot_points_length: "length (dot_points buf w srgb sf) \<le> 25 * nat w"
proof -
  have "length (dot_points buf w srgb sf) \<le> nat w * length [0..DOTIMG_NUMSTRIPS - 1]"
    unfolding dot_points_def dot_points_from_def
    by (intro length_concat_le) (simp add: dot_strip_points_length)
  then show ?thesis by (simp add: consts_vals)
qed

lemma rs_analyze_dot_count:
  assumes "rs_analyze_dot buf w h srgb out = Inr (sf, out', count)"
  shows "0 \<le> count \<and> count \<le> DOTIMG_NUMSTRIPS * max 0 w"
proof -
  have "int (length (dot_points buf w srgb sf)) \<le> int (25 * nat w)"
    using dot_points_length[of buf w srgb sf] by (simp only: of_nat_le_iff)
  also have "int (25 * nat w) = 25 * max 0 w" by (simp add: max_def)
  finally show ?thesis
    using dot_rescaled_nth(2)[OF assms] by (simp add: consts_vals)
qed

subsection \<open>Concrete runs\<close>

lemma wide_candidates:
  "dot_candidate_offset 1000 557000 0 (12 + 25 * int n) = - (25000 * real n + 12499.5)"
  by (simp add: dot_candidate_offset_def DOTIMG_SRC_WIDTH_def)

lemma wide_nearest: "dot_nearest_loop 1000 557000 0 12 10000 = 10000"
proof -
  have "\<not> \<bar>dot_candidate_offset 1000 557000 0 (12 + 25 * int n)\<bar> < \<bar>10000\<bar>" for n :: nat
    unfolding wide_candidates by simp
  with dot_nearest_loop_char[of 1000 557000 0 12 10000] show ?thesis by blast
qed

lemma wide_sum: "dot_sum_loop (replicate 153175000 50) 557000 0 0 0 0 0 = Inr 0"
  by (simp add: dot_sum_loop.simps read_pixel_int_def pixel_index_def int_fits_def INT_MAX_def
      INT_MIN_def read_pixel_def load_def DOTIMG_STRIPHEIGHT_def)

lemma wide_point:
  "dot_point (replicate 153175000 50) 557000 0 1000 0 0 = Inr (Some (10000, 0))"
  by (simp add: dot_point_def consts_vals wide_nearest wide_sum)

lemma wide_points:
  "\<exists>ps. dot_points (replicate 153175000 50) 557000 0 1000 = (10000, 0) # ps"
proof -
  have "dot_column_points (replicate 153175000 50) 557000 0 1000 0 0 = [(10000, 0)]"
    by (simp add: dot_column_points_def wide_point)
  then show ?thesis
    unfolding dot_points_def
    by (subst dot_points_from_step(1), simp add: consts_vals,
        subst dot_strip_points_step(1), simp, simp)
qed

lemma wide_run:
  "\<exists>out' count. rs_analyze_dot (replicate 153175000 50) 557000 275 0
       \<lparr>offsets = replicate 13925000 0, weights = replicate 13925000 0\<rparr>
       = Inr (1000, out', count) \<and>
     0 < count \<and> offsets out' ! 0 = 10 \<and> weights out' ! 0 = 0"
proof -
  let ?B = "replicate 153175000 (50::u8)"
  let ?O = "\<lparr>offsets = replicate 13925000 (0::real), weights = replicate 13925000 (0::real)\<rparr>"
  from rs_analyze_dot_total[of 557000 ?B ?O 275 0]
  obtain out' count where r: "rs_analyze_dot ?B 557000 275 0 ?O = Inr (1000, out', count)"
    by (auto simp: INT_MAX_def)
  from wide_points obtain ps where ps: "dot_points ?B 557000 0 1000 = (10000, 0) # ps" by blast
  from dot_rescaled_nth(2)[OF r] ps have "0 < count" by simp
  moreover from dot_rescaled_nth(3)[OF r, rule_format, of 0] ps
  have "offsets out' ! 0 = 10" "weights out' ! 0 = 0"
    by (simp_all add: rescaled_def)
  ultimately show ?thesis using r by blast
qed


lemma line_run_down:
  "rs_analyze_line [250, 250, 250, 250, 250, 250, 250] 7 1 0
      \<lparr>offsets = [0, 0, 0, 0, 0, 0, 0], weights = [0, 0, 0, 0, 0, 0, 0]\<rparr> =
    Inr (7 / 15,
      \<lparr>offsets = [- 3, - 2, - 1, 0, 1, 2, 3],
       weights = [15 / 7, 15 / 7, 15 / 7, 15 / 7, 15 / 7, 15 / 7, 15 / 7]\<rparr>,
      Some 15)"
  by (simp add: line_eval)





lemma double_nearest0: "dot_nearest_loop 2 1114 0 12 10000 = - 49 / 2"
  by (simp add: dot_nearest_loop_step dot_candidate_offset_def DOTIMG_SRC_WIDTH_def)

lemma double_nearest1: "dot_nearest_loop 2 1114 1 12 10000 = - 47 / 2"
  by (simp add: dot_nearest_loop_step dot_candidate_offset_def DOTIMG_SRC_WIDTH_def)

lemma double_sum: "dot_sum_loop (replicate 306350 250) 1114 0 0 1 0 0 = Inr 2200"
  by (simp add: dot_sum_loop.simps read_pixel_int_def pixel_index_def int_fits_def INT_MAX_def
      INT_MIN_def read_pixel_def load_def DOTIMG_STRIPHEIGHT_def)

lemma double_points:
  "\<exists>ps. dot_points (replicate 306350 250) 1114 0 2 = (- 47 / 2, 11) # ps"
proof -
  have "dot_column_points (replicate 306350 250) 1114 0 2 0 0 = []"
    by (simp add: dot_column_points_def dot_point_def consts_vals double_nearest0)
  moreover have "dot_column_points (replicate 306350 250) 1114 0 2 0 1 = [(- 47 / 2, 11)]"
    by (simp add: dot_column_points_def dot_point_def consts_vals double_nearest1 double_sum)
  ultimately show ?thesis
    unfolding dot_points_def
    by (subst dot_points_from_step(1), simp add: consts_vals,
        subst dot_strip_points_step(1), simp,
        subst dot_strip_points_step(1), simp, simp)
qed


section \<open>The rescaling step of both analyzers\<close>

text \<open>Every sample of the dot analysis comes from a column that is not skipped.\<close>

lemma dot_points_mem:
  assumes "p \<in> set (dot_points buf w srgb sf)"
  shows "\<exists>strip dstpos. 0 \<le> strip \<and> strip < 25 \<and> 0 \<le> dstpos \<and> dstpos < w \<and>
           dot_point buf w srgb sf strip dstpos = Inr (Some p)"
proof -
  from assms obtain strip where s: "strip \<in> set [0..DOTIMG_NUMSTRIPS - 1]"
    "p \<in> set (dot_strip_points buf w srgb sf strip 0)"
    by (auto simp: dot_points_def dot_points_from_def)
  from s(2) obtain dstpos where d: "dstpos \<in> set [0..w - 1]"
    "p \<in> set (dot_column_points buf w srgb sf strip dstpos)"
    by (auto simp: dot_strip_points_def)
  from d(2) have "dot_point buf w srgb sf strip dstpos = Inr (Some p)"
    by (auto simp: dot_column_points_def split: sum.splits option.splits)
  with s(1) d(1) show ?thesis by (auto simp: consts_vals)
qed

lemma dot_sample_origin:
  assumes "rs_analyze_dot buf w h srgb out = Inr (sf, out', count)" "n < nat count"
  shows "\<exists>strip dstpos tot. 0 \<le> strip \<and> strip < 25 \<and> 0 \<le> dstpos \<and> dstpos < w \<and>
           dot_sum_loop buf w srgb strip dstpos 0 0 = Inr tot \<and>
           offsets out' ! n =
             (if sf < 1 then dot_nearest_loop sf w dstpos (12 + strip) 10000
              else dot_nearest_loop sf w dstpos (12 + strip) 10000 / sf) \<and>
           weights out' ! n = (if sf < 1 then (tot / 200) / sf else tot / 200)"
proof -
  let ?ps = "dot_points buf w srgb sf"
  from dot_rescaled_nth(2)[OF assms(1)] assms(2) have n: "n < length ?ps" by simp
  from dot_rescaled_nth(3)[OF assms(1)] n
  have o: "offsets out' ! n = fst (rescaled sf (?ps ! n))"
    "weights out' ! n = snd (rescaled sf (?ps ! n))"
    by blast+
  from n have "?ps ! n \<in> set ?ps" by simp
  from dot_points_mem[OF this] obtain strip dstpos where
    r: "0 \<le> strip" "strip < 25" "0 \<le> dstpos" "dstpos < w"
    and p: "dot_point buf w srgb sf strip dstpos = Inr (Some (?ps ! n))"
    by blast
  from p obtain tot where
    t: "dot_sum_loop buf w srgb strip dstpos 0 0 = Inr tot"
    and e: "?ps ! n = (dot_nearest_loop sf w dstpos (12 + strip) 10000, tot / 200)"
    by (auto simp: dot_point_def Let_def consts_vals split: if_splits sum.splits)
  from o e have "offsets out' ! n =
             (if sf < 1 then dot_nearest_loop sf w dstpos (12 + strip) 10000
              else dot_nearest_loop sf w dstpos (12 + strip) 10000 / sf)"
    "weights out' ! n = (if sf < 1 then (tot / 200) / sf else tot / 200)"
    by (simp_all add: rescaled_def)
  with r t show ?thesis by blast
qed

text \<open>
  C1. Both analyzers return for a raster whose buffer and output arrays are large enough
  and whose size fits an \<open>int\<close>, and the scale factor they return is \<open>w\<close> divided by the
  source width of their pattern. Whenever one of them returns, of every sample it wrote
  exactly one component is rescaled: below a scale factor of 1 the weight is divided by
  the scale factor and the offset is the one computed, otherwise the offset is divided and
  the weight is the one computed. For the dot analysis the values computed are those of
  the loop body at some strip and column: the offset that the search for the nearest zero
  point returns, and the sum over the rows of the strip, divided by 200.
\<close>

theorem scale_factor_and_rescale:
  "(rs_analyze_line resized w h srgb out = Inr (sf, out', area) \<longrightarrow>
      sf = real_of_int w / real_of_int LINEIMG_SRC_WIDTH \<and>
      (\<exists>v. \<forall>i. 0 \<le> i \<and> i < w \<longrightarrow>
         read_pixel resized w i (line_y h (h sdiv 2) i) srgb = Inr (v i) \<and>
         (sf < 1 \<longrightarrow>
            offsets out' ! nat i = 0.5 + real_of_int i - real_of_int w / 2 \<and>
            weights out' ! nat i = ((v i - 50) / 200) / sf) \<and>
         (\<not> sf < 1 \<longrightarrow>
            offsets out' ! nat i = (0.5 + real_of_int i - real_of_int w / 2) / sf \<and>
            weights out' ! nat i = (v i - 50) / 200))) \<and>
   (0 \<le> w \<and> 1 \<le> h \<and> h * w \<le> INT_MAX \<and> h * w \<le> int (length resized) \<and>
    w \<le> int (length (offsets out)) \<and> w \<le> int (length (weights out)) \<longrightarrow>
      (\<exists>out' area. rs_analyze_line resized w h srgb out =
         Inr (real_of_int w / real_of_int LINEIMG_SRC_WIDTH, out', area))) \<and>
   (rs_analyze_dot resized w h srgb out = Inr (sf', out'', count) \<longrightarrow>
      sf' = real_of_int w / real_of_int DOTIMG_SRC_WIDTH \<and> 0 \<le> count \<and>
      (\<forall>n. n < nat count \<longrightarrow>
         (\<exists>strip dstpos tot.
            0 \<le> strip \<and> strip < DOTIMG_NUMSTRIPS \<and> 0 \<le> dstpos \<and> dstpos < w \<and>
            dot_sum_loop resized w srgb strip dstpos 0 0 = Inr tot \<and>
            (sf' < 1 \<longrightarrow>
               offsets out'' ! n = dot_nearest_loop sf' w dstpos (DOTIMG_HCENTER + strip) 10000 \<and>
               weights out'' ! n = (tot / 200) / sf') \<and>
            (\<not> sf' < 1 \<longrightarrow>
               offsets out'' ! n =
                 dot_nearest_loop sf' w dstpos (DOTIMG_HCENTER + strip) 10000 / sf' \<and>
               weights out'' ! n = tot / 200)))) \<and>
   (0 \<le> w \<and> DOTIMG_SRC_HEIGHT * w \<le> INT_MAX \<and>
    DOTIMG_SRC_HEIGHT * w \<le> int (length resized) \<and>
    DOTIMG_NUMSTRIPS * w \<le> int (length (offsets out)) \<and>
    DOTIMG_NUMSTRIPS * w \<le> int (length (weights out)) \<longrightarrow>
      (\<exists>out'' count. rs_analyze_dot resized w h srgb out =
         Inr (real_of_int w / real_of_int DOTIMG_SRC_WIDTH, out'', count)))"
proof (intro conjI impI)
  assume a: "rs_analyze_line resized w h srgb out = Inr (sf, out', area)"
  from rs_analyze_line_Inr[OF a] obtain v where v:
    "sf = real_of_int w / 15"
    "\<forall>k. 0 \<le> k \<and> k < w \<longrightarrow>
        read_pixel resized w k (line_y h (h sdiv 2) k) srgb = Inr (v k) \<and>
        k < int (length (offsets out)) \<and> k < int (length (weights out)) \<and>
        offsets out' ! nat k =
          (if sf < 1 then 0.5 + real_of_int k - real_of_int w / 2
           else (0.5 + real_of_int k - real_of_int w / 2) / sf) \<and>
        weights out' ! nat k =
          (if sf < 1 then ((v k - 50) / 200) / sf else (v k - 50) / 200)"
    by blast
  show "sf = real_of_int w / real_of_int LINEIMG_SRC_WIDTH"
    using v(1) by (simp add: LINEIMG_SRC_WIDTH_def)
  have "read_pixel resized w i (line_y h (h sdiv 2) i) srgb = Inr (v i) \<and>
         (sf < 1 \<longrightarrow>
            offsets out' ! nat i = 0.5 + real_of_int i - real_of_int w / 2 \<and>
            weights out' ! nat i = ((v i - 50) / 200) / sf) \<and>
         (\<not> sf < 1 \<longrightarrow>
            offsets out' ! nat i = (0.5 + real_of_int i - real_of_int w / 2) / sf \<and>
            weights out' ! nat i = (v i - 50) / 200)" if "0 \<le> i \<and> i < w" for i
    using v(2)[rule_format, OF that] by (cases "sf < 1") simp_all
  then show "\<exists>v. \<forall>i. 0 \<le> i \<and> i < w \<longrightarrow>
         read_pixel resized w i (line_y h (h sdiv 2) i) srgb = Inr (v i) \<and>
         (sf < 1 \<longrightarrow>
            offsets out' ! nat i = 0.5 + real_of_int i - real_of_int w / 2 \<and>
            weights out' ! nat i = ((v i - 50) / 200) / sf) \<and>
         (\<not> sf < 1 \<longrightarrow>
            offsets out' ! nat i = (0.5 + real_of_int i - real_of_int w / 2) / sf \<and>
            weights out' ! nat i = (v i - 50) / 200)"
    by blast
next
  assume "0 \<le> w \<and> 1 \<le> h \<and> h * w \<le> INT_MAX \<and> h * w \<le> int (length resized) \<and>
    w \<le> int (length (offsets out)) \<and> w \<le> int (length (weights out))"
  then show "\<exists>out' area. rs_analyze_line resized w h srgb out =
         Inr (real_of_int w / real_of_int LINEIMG_SRC_WIDTH, out', area)"
    using rs_analyze_line_total[of w h resized out srgb] by (simp add: LINEIMG_SRC_WIDTH_def)
next
  assume a: "rs_analyze_dot resized w h srgb out = Inr (sf', out'', count)"
  show "sf' = real_of_int w / real_of_int DOTIMG_SRC_WIDTH"
    using dot_rescaled_nth(1)[OF a] by (simp add: DOTIMG_SRC_WIDTH_def)
  show "0 \<le> count" using dot_rescaled_nth(2)[OF a] by simp
  show "\<forall>n. n < nat count \<longrightarrow>
         (\<exists>strip dstpos tot.
            0 \<le> strip \<and> strip < DOTIMG_NUMSTRIPS \<and> 0 \<le> dstpos \<and> dstpos < w \<and>
            dot_sum_loop resized w srgb strip dstpos 0 0 = Inr tot \<and>
            (sf' < 1 \<longrightarrow>
               offsets out'' ! n = dot_nearest_loop sf' w dstpos (DOTIMG_HCENTER + strip) 10000 \<and>
               weights out'' ! n = (tot / 200) / sf') \<and>
            (\<not> sf' < 1 \<longrightarrow>
               offsets out'' ! n =
                 dot_nearest_loop sf' w dstpos (DOTIMG_HCENTER + strip) 10000 / sf' \<and>
               weights out'' ! n = tot / 200))"
  proof (intro allI impI)
    fix n assume n: "n < nat count"
    from dot_sample_origin[OF a n] obtain strip dstpos tot where
      "0 \<le> strip" "strip < 25" "0 \<le> dstpos" "dstpos < w"
      "dot_sum_loop resized w srgb strip dstpos 0 0 = Inr tot"
      "offsets out'' ! n =
             (if sf' < 1 then dot_nearest_loop sf' w dstpos (12 + strip) 10000
              else dot_nearest_loop sf' w dstpos (12 + strip) 10000 / sf')"
      "weights out'' ! n = (if sf' < 1 then (tot / 200) / sf' else tot / 200)"
      by blast
    then have "0 \<le> strip \<and> strip < DOTIMG_NUMSTRIPS \<and> 0 \<le> dstpos \<and> dstpos < w \<and>
            dot_sum_loop resized w srgb strip dstpos 0 0 = Inr tot \<and>
            (sf' < 1 \<longrightarrow>
               offsets out'' ! n = dot_nearest_loop sf' w dstpos (DOTIMG_HCENTER + strip) 10000 \<and>
               weights out'' ! n = (tot / 200) / sf') \<and>
            (\<not> sf' < 1 \<longrightarrow>
               offsets out'' ! n =
                 dot_nearest_loop sf' w dstpos (DOTIMG_HCENTER + strip) 10000 / sf' \<and>
               weights out'' ! n = tot / 200)"
      by (simp add: consts_vals)
    then show "\<exists>strip dstpos tot.
            0 \<le> strip \<and> strip < DOTIMG_NUMSTRIPS \<and> 0 \<le> dstpos \<and> dstpos < w \<and>
            dot_sum_loop resized w srgb strip dstpos 0 0 = Inr tot \<and>
            (sf' < 1 \<longrightarrow>
               offsets out'' ! n = dot_nearest_loop sf' w dstpos (DOTIMG_HCENTER + strip) 10000 \<and>
               weights out'' ! n = (tot / 200) / sf') \<and>
            (\<not> sf' < 1 \<longrightarrow>
               offsets out'' ! n =
                 dot_nearest_loop sf' w dstpos (DOTIMG_HCENTER + strip) 10000 / sf' \<and>
               weights out'' ! n = tot / 200)"
      by blast
  qed
next
  assume "0 \<le> w \<and> DOTIMG_SRC_HEIGHT * w \<le> INT_MAX \<and>
    DOTIMG_SRC_HEIGHT * w \<le> int (length resized) \<and>
    DOTIMG_NUMSTRIPS * w \<le> int (length (offsets out)) \<and>
    DOTIMG_NUMSTRIPS * w \<le> int (length (weights out))"
  then show "\<exists>out'' count. rs_analyze_dot resized w h srgb out =
         Inr (real_of_int w / real_of_int DOTIMG_SRC_WIDTH, out'', count)"
    using rs_analyze_dot_total[of w resized out h srgb]
    by (simp add: consts_vals DOTIMG_SRC_WIDTH_def)
qed

theorem scale_factor_and_rescale_witness:
  "rs_analyze_line [250, 250, 250, 250, 250, 250, 250] 7 1 0
      \<lparr>offsets = [0, 0, 0, 0, 0, 0, 0], weights = [0, 0, 0, 0, 0, 0, 0]\<rparr> =
    Inr (real_of_int 7 / real_of_int LINEIMG_SRC_WIDTH,
      \<lparr>offsets = [- 3, - 2, - 1, 0, 1, 2, 3],
       weights = [15 / 7, 15 / 7, 15 / 7, 15 / 7, 15 / 7, 15 / 7, 15 / 7]\<rparr>,
      Some 15) \<and>
   (- 3 :: real) = 0.5 + real_of_int 0 - real_of_int 7 / 2 \<and>
   (\<exists>v. read_pixel [250, 250, 250, 250, 250, 250, 250] 7 0 (line_y 1 (1 sdiv 2) 0) 0 = Inr v \<and>
        (15 / 7 :: real) = ((v - 50) / 200) / (7 / 15)) \<and>
   (\<exists>out' count. rs_analyze_dot (replicate 306350 250) 1114 275 0
       \<lparr>offsets = replicate 27850 0, weights = replicate 27850 0\<rparr> =
         Inr (real_of_int 1114 / real_of_int DOTIMG_SRC_WIDTH, out', count) \<and>
       0 < count \<and>
       (\<exists>strip dstpos tot.
          dot_sum_loop (replicate 306350 250) 1114 0 strip dstpos 0 0 = Inr tot \<and>
          offsets out' ! 0 = dot_nearest_loop 2 1114 dstpos (DOTIMG_HCENTER + strip) 10000 / 2 \<and>
          weights out' ! 0 = tot / 200) \<and>
       offsets out' ! 0 = (- 47 / 2) / 2 \<and> weights out' ! 0 = 11)"
proof -
  let ?b7 = "[250, 250, 250, 250, 250, 250, 250 :: u8]"
  let ?o7 = "\<lparr>offsets = [0, 0, 0, 0, 0, 0, 0 :: real], weights = [0, 0, 0, 0, 0, 0, 0 :: real]\<rparr>"
  let ?r7 = "\<lparr>offsets = [- 3, - 2, - 1, 0, 1, 2, 3 :: real],
       weights = [15 / 7, 15 / 7, 15 / 7, 15 / 7, 15 / 7, 15 / 7, 15 / 7 :: real]\<rparr>"
  let ?bd = "replicate 306350 (250 :: u8)"
  let ?od = "\<lparr>offsets = replicate 27850 (0 :: real), weights = replicate 27850 (0 :: real)\<rparr>"
  note l = scale_factor_and_rescale[where resized = ?b7 and w = 7 and h = 1 and srgb = 0
      and out = ?o7 and sf = "7 / 15" and out' = ?r7 and area = "Some 15"]
  have "(0::int) \<le> 7 \<and> (1::int) \<le> 1 \<and> (1::int) * 7 \<le> INT_MAX \<and>
      (1::int) * 7 \<le> int (length ?b7) \<and> 7 \<le> int (length (offsets ?o7)) \<and>
      7 \<le> int (length (weights ?o7))"
    by (simp add: INT_MAX_def)
  from l[THEN conjunct2, THEN conjunct1, rule_format, OF this] line_run_down
  have run7: "rs_analyze_line ?b7 7 1 0 ?o7 =
      Inr (real_of_int 7 / real_of_int LINEIMG_SRC_WIDTH, ?r7, Some 15)"
    by auto
  from l[THEN conjunct1, rule_format, OF line_run_down] obtain v where
    "\<forall>i. 0 \<le> i \<and> i < 7 \<longrightarrow>
       read_pixel ?b7 7 i (line_y 1 (1 sdiv 2) i) 0 = Inr (v i) \<and>
       ((7 / 15 :: real) < 1 \<longrightarrow>
          offsets ?r7 ! nat i = 0.5 + real_of_int i - real_of_int 7 / 2 \<and>
          weights ?r7 ! nat i = ((v i - 50) / 200) / (7 / 15))"
    by blast
  from this[rule_format, of 0] have s7:
    "(- 3 :: real) = 0.5 + real_of_int 0 - real_of_int 7 / 2"
    "\<exists>v. read_pixel ?b7 7 0 (line_y 1 (1 sdiv 2) 0) 0 = Inr v \<and>
        (15 / 7 :: real) = ((v - 50) / 200) / (7 / 15)"
    by auto
  have "(0::int) \<le> 1114 \<and> DOTIMG_SRC_HEIGHT * 1114 \<le> INT_MAX \<and>
    DOTIMG_SRC_HEIGHT * 1114 \<le> int (length ?bd) \<and>
    DOTIMG_NUMSTRIPS * 1114 \<le> int (length (offsets ?od)) \<and>
    DOTIMG_NUMSTRIPS * 1114 \<le> int (length (weights ?od))"
    by (simp add: consts_vals INT_MAX_def)
  from scale_factor_and_rescale[where resized = ?bd and w = 1114 and h = 275 and srgb = 0
      and out = ?od, THEN conjunct2, THEN conjunct2, THEN conjunct2, rule_format, OF this]
  obtain od c where
    rd: "rs_analyze_dot ?bd 1114 275 0 ?od =
      Inr (real_of_int 1114 / real_of_int DOTIMG_SRC_WIDTH, od, c)"
    by blast
  then have rd2: "rs_analyze_dot ?bd 1114 275 0 ?od = Inr (2, od, c)"
    by (simp add: DOTIMG_SRC_WIDTH_def)
  from double_points obtain ps where
    ps: "dot_points ?bd 1114 0 2 = (- 47 / 2, 11) # ps" by blast
  from dot_rescaled_nth(2)[OF rd2] ps have c: "0 < c" by simp
  from dot_rescaled_nth(3)[OF rd2, rule_format, of 0] ps
  have v0: "offsets od ! 0 = (- 47 / 2) / 2" "weights od ! 0 = 11"
    by (simp_all add: rescaled_def)
  from c have "0 < nat c" by simp
  from scale_factor_and_rescale[where resized = ?bd and w = 1114 and h = 275 and srgb = 0
      and out = ?od and sf' = 2 and out'' = od and count = c,
      THEN conjunct2, THEN conjunct2, THEN conjunct1, rule_format, OF rd2,
      THEN conjunct2, THEN conjunct2, rule_format, OF this]
  obtain strip dstpos tot where
    "dot_sum_loop ?bd 1114 0 strip dstpos 0 0 = Inr tot"
    "\<not> (2 :: real) < 1 \<longrightarrow>
       offsets od ! 0 = dot_nearest_loop 2 1114 dstpos (DOTIMG_HCENTER + strip) 10000 / 2 \<and>
       weights od ! 0 = tot / 200"
    by blast
  then have "\<exists>strip dstpos tot.
          dot_sum_loop ?bd 1114 0 strip dstpos 0 0 = Inr tot \<and>
          offsets od ! 0 = dot_nearest_loop 2 1114 dstpos (DOTIMG_HCENTER + strip) 10000 / 2 \<and>
          weights od ! 0 = tot / 200"
    by auto
  with run7 s7 rd c v0 show ?thesis by blast
qed




section \<open>The sentinel of the nearest zero point\<close>

text \<open>
  C3. The search for the nearest zero point starts from the offset 10000. A resized dot
  raster 557000 wide has scale factor 1000; at strip 0, column 0 every dot centre is at
  least 12499.5 away, so the search returns 10000, which is no \<open>dstpos - zp\<close> of any dot
  centre, and since 10000 does not exceed \<open>1000 * HCENTER = 12000\<close> the column is sampled:
  the first sample written has offset 10000 / 1000 = 10.
\<close>

theorem dot_sentinel_offset:
  "\<exists>out' count. rs_analyze_dot (replicate 153175000 50) 557000 275 0
       \<lparr>offsets = replicate 13925000 0, weights = replicate 13925000 0\<rparr>
       = Inr (1000, out', count) \<and>
     0 < count \<and> offsets out' ! 0 = 10 \<and> weights out' ! 0 = 0 \<and>
     dot_point (replicate 153175000 50) 557000 0 1000 0 0 = Inr (Some (10000, 0)) \<and>
     (\<forall>n::nat. dot_candidate_offset 1000 557000 0 (DOTIMG_HCENTER + 0 + int n * DOTIMG_HPIXELSPAN)
          \<le> - 12499.5)"
proof -
  have "dot_candidate_offset 1000 557000 0 (DOTIMG_HCENTER + 0 + int n * DOTIMG_HPIXELSPAN)
          \<le> - 12499.5" for n :: nat
    using wide_candidates[of n] by (simp add: consts_vals DOTIMG_HPIXELSPAN_def mult.commute)
  with wide_run wide_point show ?thesis by blast
qed

text \<open>
  C4. On the same raster the smallest offset magnitude over the dot centres of strip 0 at
  column 0 exceeds \<open>scale_factor * HCENTER = 12000\<close>, and yet the column is not skipped:
  its sample is the first one written.
\<close>

theorem dot_far_column_emitted:
  "\<exists>out' count. rs_analyze_dot (replicate 153175000 50) 557000 275 0
       \<lparr>offsets = replicate 13925000 0, weights = replicate 13925000 0\<rparr>
       = Inr (1000, out', count) \<and>
     hd (dot_points (replicate 153175000 50) 557000 0 1000) = (10000, 0) \<and>
     0 < count \<and> offsets out' ! 0 = 10000 / 1000 \<and>
     (\<forall>n::nat. 1000 * real_of_int DOTIMG_HCENTER <
        \<bar>dot_candidate_offset 1000 557000 0 (DOTIMG_HCENTER + 0 + int n * DOTIMG_HPIXELSPAN)\<bar>)"
proof -
  have "1000 * real_of_int DOTIMG_HCENTER <
        \<bar>dot_candidate_offset 1000 557000 0 (DOTIMG_HCENTER + 0 + int n * DOTIMG_HPIXELSPAN)\<bar>"
    for n :: nat
    using wide_candidates[of n] by (simp add: consts_vals DOTIMG_HPIXELSPAN_def mult.commute)
  moreover from wide_points
  have "hd (dot_points (replicate 153175000 50) 557000 0 1000) = (10000, 0)" by auto
  ultimately show ?thesis using wide_run by auto
qed

end
